theory Spec2Isabelle
  imports Main "HOL-Library.Word" "HOL-Library.Multiset"
begin

section \<open>Move lists and the partial selection sort (search.cpp, nextMove)\<close>

text \<open>
  A Move is a small integer; the sentinel NULL_MOVE is declared in a header that is
  not part of the sources at hand, so nextMove takes it as the parameter \<open>nullMove\<close>.  MoveList and ScoreList are finite containers with \<open>size\<close>, \<open>get\<close>
  and \<open>swap\<close>; they are lists here.
\<close>

type_synonym Move = nat
type_synonym MoveList = "Move list"
type_synonym ScoreList = "int list"

text \<open>\<open>list.swap(i, j)\<close>: exchange the elements at the two positions.\<close>

definition swap_at :: "nat \<Rightarrow> nat \<Rightarrow> 'a list \<Rightarrow> 'a list" where
  "swap_at i j xs = xs[i := xs ! j, j := xs ! i]"

text \<open>
  The scan of nextMove:
  \<^verbatim>\<open>for (unsigned int i = index + 1; i < moves.size(); i++)
      if (scores.get(i) > bestScore) { bestIndex = i; bestScore = scores.get(bestIndex); }\<close>
  It returns the final bestIndex.
\<close>

function nextMove_scan :: "ScoreList \<Rightarrow> nat \<Rightarrow> nat \<Rightarrow> int \<Rightarrow> nat \<Rightarrow> nat" where
  "nextMove_scan scores sz bestIndex bestScore i =
     (if i < sz then
        (if scores ! i > bestScore
         then nextMove_scan scores sz i (scores ! i) (i + 1)
         else nextMove_scan scores sz bestIndex bestScore (i + 1))
      else bestIndex)"
  by pat_completeness auto
termination
  by (relation "measure (\<lambda>(scores, sz, bestIndex, bestScore, i). sz - i)") auto

declare nextMove_scan.simps [simp del]

text \<open>
  nextMove returns the move and leaves both lists changed by the swap; the model
  returns the move together with the two lists.
\<close>

definition nextMove :: "Move \<Rightarrow> MoveList \<Rightarrow> ScoreList \<Rightarrow> nat \<Rightarrow> Move \<times> MoveList \<times> ScoreList" where
  "nextMove nullMove moves scores index =
     (if index \<ge> length moves then (nullMove, moves, scores)
      else
        let bestIndex = nextMove_scan scores (length moves) index (scores ! index) (index + 1);
            moves' = swap_at bestIndex index moves;
            scores' = swap_at bestIndex index scores
        in (moves' ! index, moves', scores'))"

text \<open>
  Successive calls with index \<open>index, index + 1, ...\<close>, as the capture loop of the
  quiescence search makes them: the moves returned, each with the score that stands
  at its position after the call, until NULL_MOVE comes back or \<open>k\<close> calls are made.
\<close>

fun nextMove_calls :: "Move \<Rightarrow> MoveList \<Rightarrow> ScoreList \<Rightarrow> nat \<Rightarrow> nat \<Rightarrow> (Move \<times> int) list" where
  "nextMove_calls nullMove moves scores index 0 = []"
| "nextMove_calls nullMove moves scores index (Suc k) =
     (case nextMove nullMove moves scores index of
        (m, moves', scores') \<Rightarrow>
          if index \<ge> length moves then []
          else (m, scores' ! index) # nextMove_calls nullMove moves' scores' (Suc index) k)"

text \<open>
  Two facts about one call, used where a loop over nextMove is shown to end: the lists
  keep their lengths, and a result other than the sentinel means that \<open>index\<close> was in
  range.
\<close>

lemma length_nextMove:
  "nextMove nullMove moves scores index = (m, moves', scores') \<Longrightarrow>
     length moves' = length moves \<and> length scores' = length scores"
  by (auto simp: nextMove_def swap_at_def Let_def split: if_splits)

lemma nextMove_in_range:
  "nextMove nullMove moves scores index = (m, moves', scores') \<Longrightarrow> m \<noteq> nullMove \<Longrightarrow>
     index < length moves"
  by (auto simp: nextMove_def split: if_splits)

section \<open>The data of the search (search.cpp and the headers it includes)\<close>

text \<open>
  search.cpp is written against \<open>Board\<close>, \<open>Hash\<close>, \<open>SearchSpace\<close>,
  \<open>SearchParameters\<close> and a handful of constants, all declared in headers that are not
  among the sources at hand.  The functions of search.cpp are modelled in full; what
  they call from those headers is a parameter of the model, collected in the record
  \<open>Env\<close> below, so that every theorem holds for whatever those collaborators compute.
\<close>

type_synonym SearchPV = "Move list"
  \<comment> \<open>\<open>struct SearchPV\<close>: the first \<open>pvLength\<close> entries of \<open>pv\<close>\<close>

datatype Color = WHITE | BLACK

text \<open>\<open>color ^ 1\<close>\<close>

fun other :: "Color \<Rightarrow> Color" where
  "other WHITE = BLACK"
| "other BLACK = WHITE"

datatype NodeType = PV_NODE | CUT_NODE | ALL_NODE

text \<open>What probeTT reads of a \<open>HashEntry\<close>: \<open>m\<close>, \<open>score\<close>, \<open>depth\<close>, \<open>getNodeType()\<close>.\<close>

record HashEntry =
  entry_m :: Move
  entry_score :: int
  entry_depth :: int
  entry_nodeType :: NodeType

text \<open>The constants search.cpp uses and does not declare.\<close>

record Constants =
  NULL_MOVE :: Move
  INFTY :: int
  MATE_SCORE :: int
  MAX_DEPTH :: int
  MAX_POS_SCORE :: int
  PAWN_VALUE :: int
  KNIGHT_VALUE :: int
  QUEEN_VALUE :: int

text \<open>
  The member functions of \<open>Board\<close> that the search calls.  \<open>staticCopy\<close> is the
  identity on values.  \<open>doPseudoLegalMove\<close> and \<open>doHashMove\<close> change the copy they are
  called on and return whether the move was legal: \<open>Some\<close> of the new position, or
  \<open>None\<close> when they return false (the copy is then dropped by every caller).
\<close>

record 'b Board =
  getPlayerToMove :: "'b \<Rightarrow> Color"
  isDraw :: "'b \<Rightarrow> bool"
  isInCheck :: "'b \<Rightarrow> Color \<Rightarrow> bool"
  isCheckMove :: "'b \<Rightarrow> Move \<Rightarrow> Color \<Rightarrow> bool"
  getNonPawnMaterial :: "'b \<Rightarrow> Color \<Rightarrow> int"
  evaluate :: "'b \<Rightarrow> int"
  evaluateMaterial :: "'b \<Rightarrow> int"
  evaluatePositional :: "'b \<Rightarrow> int"
  valueOfPiece :: "'b \<Rightarrow> int \<Rightarrow> int"
  getPieceOnSquare :: "'b \<Rightarrow> Color \<Rightarrow> int \<Rightarrow> int"
  getMVVLVAScore :: "'b \<Rightarrow> Color \<Rightarrow> Move \<Rightarrow> int"
  getExchangeScore :: "'b \<Rightarrow> Color \<Rightarrow> Move \<Rightarrow> int"
  getSEE :: "'b \<Rightarrow> Color \<Rightarrow> int \<Rightarrow> int"
  getPseudoLegalCaptures :: "'b \<Rightarrow> Color \<Rightarrow> bool \<Rightarrow> MoveList"
  getPseudoLegalPromotions :: "'b \<Rightarrow> Color \<Rightarrow> MoveList"
  getPseudoLegalChecks :: "'b \<Rightarrow> Color \<Rightarrow> MoveList"
  getPseudoLegalCheckEscapes :: "'b \<Rightarrow> Color \<Rightarrow> MoveList"
  doPseudoLegalMove :: "'b \<Rightarrow> Move \<Rightarrow> Color \<Rightarrow> 'b option"
  doHashMove :: "'b \<Rightarrow> Move \<Rightarrow> Color \<Rightarrow> 'b option"
  doNullMove :: "'b \<Rightarrow> 'b"

text \<open>The free functions on moves.\<close>

record MoveOps =
  isCapture :: "Move \<Rightarrow> bool"
  isPromotion :: "Move \<Rightarrow> bool"
  getStartSq :: "Move \<Rightarrow> int"
  getEndSq :: "Move \<Rightarrow> int"

text \<open>
  \<open>struct SearchStatistics\<close> and the fields of \<open>SearchParameters\<close> that search.cpp
  touches.  \<open>killers[ply]\<close> is the pair of the two slots; \<open>historyTable\<close> is indexed by
  colour, piece and square.  The arrays are total functions here: an index out of
  their bounds is undefined behaviour in the source and is not modelled.
\<close>

record SearchStatistics =
  nodes :: "64 word"
  hashProbes :: "64 word"
  hashHits :: "64 word"
  hashScoreCuts :: "64 word"
  hashMoveAttempts :: "64 word"
  hashMoveCuts :: "64 word"
  failHighs :: "64 word"
  firstFailHighs :: "64 word"
  qsNodes :: "64 word"
  qsFailHighs :: "64 word"
  qsFirstFailHighs :: "64 word"

type_synonym History = "Color \<Rightarrow> int \<Rightarrow> int \<Rightarrow> int"

record SearchParameters =
  ply :: int
  nullMoveCount :: int
  rootMoveNumber :: "8 word"
  killers :: "int \<Rightarrow> Move \<times> Move"
  historyTable :: History
  timeLimit :: int

text \<open>
  The table \<open>transpositionTable\<close> is a value of a type \<open>'t\<close> with the two member
  functions the search calls.  \<open>add\<close> receives the position, the depth, the move, the
  score, the node type and the age; it does not receive the ply.
\<close>

record ('b, 't) Hash =
  hash_get :: "'t \<Rightarrow> 'b \<Rightarrow> HashEntry option"
  hash_add :: "'t \<Rightarrow> 'b \<Rightarrow> int \<Rightarrow> Move \<Rightarrow> int \<Rightarrow> NodeType \<Rightarrow> 8 word \<Rightarrow> 't"

text \<open>
  Modelled from the spec: \<open>SearchSpace\<close> (searchspace.h is missing).  It is a stateful
  iterator over the ordered pseudo-legal moves of a node.  The object keeps the two
  flags it is constructed with (the source reads \<open>ss.isInCheck\<close>); the rest of it is a
  value of a type \<open>'g\<close>, made by the constructor together with \<open>generateMoves\<close>,
  advanced by \<open>nextMove\<close> (which may read the live killers and history through its
  pointer to the search parameters), and read by \<open>reduceBadHistories\<close>, which changes
  history entries only.  nodeIsReducible is true when the node is neither in check nor
  a PV node.
\<close>

record 'g SearchSpace =
  ss_isPVNode :: bool
  ss_isInCheck :: bool
  ss_moves :: 'g

record ('b, 'g) SearchSpaceOps =
  generateMoves :: "'b \<Rightarrow> Color \<Rightarrow> int \<Rightarrow> bool \<Rightarrow> bool \<Rightarrow> SearchParameters \<Rightarrow> Move \<Rightarrow> 'g"
  ss_nextMove :: "'g \<Rightarrow> SearchParameters \<Rightarrow> Move \<times> 'g"
  reduceBadHistories :: "'g \<Rightarrow> Move \<Rightarrow> History \<Rightarrow> History"

definition nodeIsReducible :: "'g SearchSpace \<Rightarrow> bool" where
  "nodeIsReducible ss = (\<not> ss_isInCheck ss \<and> \<not> ss_isPVNode ss)"

text \<open>
  Everything the search is given.  \<open>getTimeElapsed k\<close> is the value, in the unit of
  \<open>timeLimit\<close>, that the \<open>k\<close>-th reading of the clock in the move loop returns
  (\<open>getTimeElapsed(searchParams.startTime) * ONE_SECOND\<close>): the clock is an input of
  the search, not a function of its state.
\<close>

record ('b, 't, 'g) Env =
  cst :: Constants
  brd :: "'b Board"
  mv :: MoveOps
  tt :: "('b, 't) Hash"
  sso :: "('b, 'g) SearchSpaceOps"
  getTimeElapsed :: "nat \<Rightarrow> int"

text \<open>
  The mutable globals of search.cpp: the table, \<open>searchParams\<close>, \<open>searchStats\<close>, the
  flag \<open>isStop\<close>, and the number of clock readings made so far.
\<close>

record 't SearchState =
  transpositionTable :: 't
  searchParams :: SearchParameters
  searchStats :: SearchStatistics
  isStop :: bool
  clockReads :: nat

text \<open>A statistics counter \<open>++\<close>, and \<open>searchParams.ply++\<close> / \<open>--\<close>.\<close>

definition count ::
  "((64 word \<Rightarrow> 64 word) \<Rightarrow> SearchStatistics \<Rightarrow> SearchStatistics) \<Rightarrow> 't SearchState \<Rightarrow> 't SearchState" where
  "count field st = st\<lparr>searchStats := field (\<lambda>c. c + 1) (searchStats st)\<rparr>"

definition incPly :: "'t SearchState \<Rightarrow> 't SearchState" where
  "incPly st = st\<lparr>searchParams := (searchParams st)\<lparr>ply := ply (searchParams st) + 1\<rparr>\<rparr>"

definition decPly :: "'t SearchState \<Rightarrow> 't SearchState" where
  "decPly st = st\<lparr>searchParams := (searchParams st)\<lparr>ply := ply (searchParams st) - 1\<rparr>\<rparr>"

definition incNullMoveCount :: "'t SearchState \<Rightarrow> 't SearchState" where
  "incNullMoveCount st =
     st\<lparr>searchParams := (searchParams st)\<lparr>nullMoveCount := nullMoveCount (searchParams st) + 1\<rparr>\<rparr>"

definition decNullMoveCount :: "'t SearchState \<Rightarrow> 't SearchState" where
  "decNullMoveCount st =
     st\<lparr>searchParams := (searchParams st)\<lparr>nullMoveCount := nullMoveCount (searchParams st) - 1\<rparr>\<rparr>"

text \<open>
  How a loop of the search, or one pass through its body, ends: by a \<open>return\<close> out of
  the enclosing function, with the value returned, or by going on, with the loop's
  variables as they then are; in both cases with the globals as they then are.
\<close>

datatype ('r, 'v, 's) LoopExit = Return 'r 's | Done 'v 's

fun exitState :: "('r, 'v, 's) LoopExit \<Rightarrow> 's" where
  "exitState (Return r s) = s"
| "exitState (Done v s) = s"

text \<open>C++ integer division truncates towards zero.\<close>

definition cdiv :: "int \<Rightarrow> int \<Rightarrow> int" where
  "cdiv a b = sgn a * sgn b * (\<bar>a\<bar> div \<bar>b\<bar>)"

text \<open>
  \<^verbatim>\<open>const int FUTILITY_MARGIN[4] = {0, MAX_POS_SCORE, MAX_POS_SCORE + KNIGHT_VALUE,
      MAX_POS_SCORE + QUEEN_VALUE};
  const int REVERSE_FUTILITY_MARGIN[3] = {0, MAX_POS_SCORE, MAX_POS_SCORE + 2*PAWN_VALUE};\<close>
  Both are read at \<open>depth\<close> only where \<open>1 \<le> depth\<close> and \<open>depth\<close> is within the array.
\<close>

definition FUTILITY_MARGIN :: "Constants \<Rightarrow> int \<Rightarrow> int" where
  "FUTILITY_MARGIN C depth =
     [0, MAX_POS_SCORE C, MAX_POS_SCORE C + KNIGHT_VALUE C, MAX_POS_SCORE C + QUEEN_VALUE C] ! nat depth"

definition REVERSE_FUTILITY_MARGIN :: "Constants \<Rightarrow> int \<Rightarrow> int" where
  "REVERSE_FUTILITY_MARGIN C depth =
     [0, MAX_POS_SCORE C, MAX_POS_SCORE C + 2 * PAWN_VALUE C] ! nat depth"

section \<open>Quiescence search (search.cpp, quiescence and checkQuiescence)\<close>

text \<open>
  quiescence and checkQuiescence call each other on the positions the board makes,
  and nothing in them bounds the nesting.  Each function of the model therefore takes
  the searches it calls as parameters (\<open>qs\<close> for quiescence, \<open>cq\<close> for checkQuiescence);
  the recursion is closed at the end of the section by a counter \<open>fuel\<close> of the nesting
  that is left, and a search that needs more returns \<open>None\<close>.  A result is the score
  together with the globals as the call leaves them; the board is only read.
\<close>

type_synonym ('b, 't) QSearch =
  "'t SearchState \<Rightarrow> 'b \<Rightarrow> int \<Rightarrow> int \<Rightarrow> int \<Rightarrow> (int \<times> 't SearchState) option"

text \<open>The variables of a loop of the quiescence search: \<open>alpha\<close>, \<open>score\<close> and \<open>j\<close>.\<close>

type_synonym 't QExit = "(int, int \<times> int \<times> nat, 't SearchState) LoopExit"

text \<open>\<open>searchStats.qsFailHighs++; if (j == 0) searchStats.qsFirstFailHighs++;\<close>\<close>

definition qsFailHigh :: "nat \<Rightarrow> 't SearchState \<Rightarrow> 't SearchState" where
  "qsFailHigh j st =
     (let st1 = count qsFailHighs_update st
      in if j = 0 then count qsFirstFailHighs_update st1 else st1)"

text \<open>\<open>searchStats.nodes++; searchStats.qsNodes++;\<close>\<close>

definition qsNode :: "'t SearchState \<Rightarrow> 't SearchState" where
  "qsNode st = count qsNodes_update (count nodes_update st)"

text \<open>
  The four loops of the two functions end with the same statements:
  \<^verbatim>\<open>Board copy = b.staticCopy();
  if (!copy.doPseudoLegalMove(m, color)) continue;
  searchStats.nodes++; searchStats.qsNodes++;
  score = -quiescence(copy, plies+1, -beta, -alpha);
  if (score >= beta) { searchStats.qsFailHighs++;
      if (j == 0) searchStats.qsFirstFailHighs++;  return beta; }
  if (score > alpha) alpha = score;
  j++;\<close>
  with \<open>search\<close> for the search that is called (checkQuiescence in the loop over the
  checking moves).
\<close>

definition qs_searchMove ::
    "('b, 't, 'g) Env \<Rightarrow> ('b, 't) QSearch \<Rightarrow> 't SearchState \<Rightarrow> 'b \<Rightarrow> Color \<Rightarrow> int
      \<Rightarrow> int \<Rightarrow> int \<Rightarrow> Move \<Rightarrow> int \<Rightarrow> nat \<Rightarrow> 't QExit option" where
  "qs_searchMove E search st b color plies alpha beta m score j =
     (case doPseudoLegalMove (brd E) b m color of
        None \<Rightarrow> Some (Done (alpha, score, j) st)
      | Some copy \<Rightarrow>
          (case search (qsNode st) copy (plies + 1) (- beta) (- alpha) of
             None \<Rightarrow> None
           | Some (v, st') \<Rightarrow>
               if - v \<ge> beta then Some (Return beta (qsFailHigh j st'))
               else Some (Done (if - v > alpha then - v else alpha, - v, j + 1) st')))"

text \<open>The two pruning tests of the capture loop.\<close>

definition qsDeltaPrune :: "('b, 't, 'g) Env \<Rightarrow> 'b \<Rightarrow> Color \<Rightarrow> int \<Rightarrow> int \<Rightarrow> Move \<Rightarrow> bool" where
  "qsDeltaPrune E b color standPat alpha m =
     (standPat + valueOfPiece (brd E) b (getPieceOnSquare (brd E) b (other color) (getEndSq (mv E) m))
        < alpha - MAX_POS_SCORE (cst E))"

definition qsSEEPrune :: "('b, 't, 'g) Env \<Rightarrow> 'b \<Rightarrow> Color \<Rightarrow> Move \<Rightarrow> bool" where
  "qsSEEPrune E b color m =
     (getExchangeScore (brd E) b color m < 0
      \<and> getSEE (brd E) b color (getEndSq (mv E) m) < - MAX_POS_SCORE (cst E))"

text \<open>
  The capture loop:
  \<^verbatim>\<open>for (Move m = nextMove(legalCaptures, scores, i); m != NULL_MOVE;
            m = nextMove(legalCaptures, scores, ++i)) { ... }\<close>
\<close>

function qs_captures ::
    "('b, 't, 'g) Env \<Rightarrow> ('b, 't) QSearch \<Rightarrow> 't SearchState \<Rightarrow> 'b \<Rightarrow> Color \<Rightarrow> int \<Rightarrow> int
      \<Rightarrow> int \<Rightarrow> int \<Rightarrow> MoveList \<Rightarrow> ScoreList \<Rightarrow> nat \<Rightarrow> int \<Rightarrow> nat \<Rightarrow> 't QExit option" where
  "qs_captures E qs st b color plies standPat alpha beta legalCaptures scores i score j =
     (let r = nextMove (NULL_MOVE (cst E)) legalCaptures scores i;
          m = fst r; legalCaptures' = fst (snd r); scores' = snd (snd r) in
      if m = NULL_MOVE (cst E) then Some (Done (alpha, score, j) st)
      else if qsDeltaPrune E b color standPat alpha m \<or> qsSEEPrune E b color m then
        qs_captures E qs st b color plies standPat alpha beta legalCaptures' scores' (i + 1) score j
      else
        (case qs_searchMove E qs st b color plies alpha beta m score j of
           None \<Rightarrow> None
         | Some (Return v st') \<Rightarrow> Some (Return v st')
         | Some (Done (alpha', score', j') st') \<Rightarrow>
             qs_captures E qs st' b color plies standPat alpha' beta legalCaptures' scores'
               (i + 1) score' j'))"
  by pat_completeness auto
termination
proof (relation "measure (\<lambda>(E, qs, st, b, color, plies, standPat, alpha, beta, legalCaptures,
                             scores, i, score, j). length legalCaptures - i)", goal_cases)
  case 1
  show ?case by simp
next
  case (2 E qs st b color plies standPat alpha beta legalCaptures scores i score j r m lc sc)
  then show ?case
    using length_nextMove [of "NULL_MOVE (cst E)" legalCaptures scores i m lc sc]
      nextMove_in_range [of "NULL_MOVE (cst E)" legalCaptures scores i m lc sc]
    by (cases r) auto
next
  case (3 E qs st b color plies standPat alpha beta legalCaptures scores i score j r m lc sc)
  then show ?case
    using length_nextMove [of "NULL_MOVE (cst E)" legalCaptures scores i m lc sc]
      nextMove_in_range [of "NULL_MOVE (cst E)" legalCaptures scores i m lc sc]
    by (cases r) auto
qed

declare qs_captures.simps [simp del]

text \<open>
  The promotion loop, \<open>for (i = 0; i < legalPromotions.size(); i++)\<close>, by recursion on
  the moves that are left.
\<close>

fun qs_promotions ::
    "('b, 't, 'g) Env \<Rightarrow> ('b, 't) QSearch \<Rightarrow> 't SearchState \<Rightarrow> 'b \<Rightarrow> Color \<Rightarrow> int
      \<Rightarrow> int \<Rightarrow> int \<Rightarrow> MoveList \<Rightarrow> int \<Rightarrow> nat \<Rightarrow> 't QExit option" where
  "qs_promotions E qs st b color plies alpha beta [] score j = Some (Done (alpha, score, j) st)"
| "qs_promotions E qs st b color plies alpha beta (m # legalPromotions) score j =
     (if getSEE (brd E) b color (getEndSq (mv E) m) < 0 then
        qs_promotions E qs st b color plies alpha beta legalPromotions score j
      else
        (case qs_searchMove E qs st b color plies alpha beta m score j of
           None \<Rightarrow> None
         | Some (Return v st') \<Rightarrow> Some (Return v st')
         | Some (Done (alpha', score', j') st') \<Rightarrow>
             qs_promotions E qs st' b color plies alpha' beta legalPromotions score' j'))"

text \<open>
  The loop over the checking moves and the loop of checkQuiescence over the check
  escapes have the shared statements as their whole body; \<open>search\<close> is checkQuiescence
  in the first and quiescence in the second.
\<close>

fun qs_moves ::
    "('b, 't, 'g) Env \<Rightarrow> ('b, 't) QSearch \<Rightarrow> 't SearchState \<Rightarrow> 'b \<Rightarrow> Color \<Rightarrow> int
      \<Rightarrow> int \<Rightarrow> int \<Rightarrow> MoveList \<Rightarrow> int \<Rightarrow> nat \<Rightarrow> 't QExit option" where
  "qs_moves E search st b color plies alpha beta [] score j = Some (Done (alpha, score, j) st)"
| "qs_moves E search st b color plies alpha beta (m # legalMoves) score j =
     (case qs_searchMove E search st b color plies alpha beta m score j of
        None \<Rightarrow> None
      | Some (Return v st') \<Rightarrow> Some (Return v st')
      | Some (Done (alpha', score', j') st') \<Rightarrow>
          qs_moves E search st' b color plies alpha' beta legalMoves score' j')"

text \<open>
  The body of quiescence.  Its variable \<open>score\<close> is written in the capture and
  promotion loops and read nowhere (the test that read it is commented out); the loop
  over the checking moves has a \<open>score\<close> of its own.
\<close>

definition quiescence_body ::
    "('b, 't, 'g) Env \<Rightarrow> ('b, 't) QSearch \<Rightarrow> ('b, 't) QSearch \<Rightarrow> ('b, 't) QSearch" where
  "quiescence_body E qs cq st b plies alpha beta =
     (let color = getPlayerToMove (brd E) b in
      if isInCheck (brd E) b color then cq st b plies alpha beta
      else
        let standPat = (if color = WHITE then evaluateMaterial (brd E) b
                        else - evaluateMaterial (brd E) b) in
        if standPat \<ge> beta + MAX_POS_SCORE (cst E) then Some (beta, st)
        else if standPat < alpha - 2 * MAX_POS_SCORE (cst E) - QUEEN_VALUE (cst E)
        then Some (alpha, st)
        else
          let standPat = standPat + (if color = WHITE then evaluatePositional (brd E) b
                                     else - evaluatePositional (brd E) b);
              alpha = (if alpha < standPat then standPat else alpha) in
          if standPat \<ge> beta then Some (beta, st)
          else if standPat < alpha - MAX_POS_SCORE (cst E) - QUEEN_VALUE (cst E)
          then Some (alpha, st)
          else
            let legalCaptures = getPseudoLegalCaptures (brd E) b color False;
                scores = map (getMVVLVAScore (brd E) b color) legalCaptures in
            case qs_captures E qs st b color plies standPat alpha beta legalCaptures scores 0
                   (- INFTY (cst E)) 0 of
              None \<Rightarrow> None
            | Some (Return v st) \<Rightarrow> Some (v, st)
            | Some (Done (alpha, score, j) st) \<Rightarrow>
                (case qs_promotions E qs st b color plies alpha beta
                        (getPseudoLegalPromotions (brd E) b color) score j of
                   None \<Rightarrow> None
                 | Some (Return v st) \<Rightarrow> Some (v, st)
                 | Some (Done (alpha, score, j) st) \<Rightarrow>
                     if plies \<le> 0 then
                       (case qs_moves E cq st b color plies alpha beta
                               (getPseudoLegalChecks (brd E) b color) score j of
                          None \<Rightarrow> None
                        | Some (Return v st) \<Rightarrow> Some (v, st)
                        | Some (Done (alpha, score', j) st) \<Rightarrow> Some (alpha, st))
                     else Some (alpha, st)))"

text \<open>The mate score of checkQuiescence, clamped into the window.\<close>

definition cqMateScore :: "Constants \<Rightarrow> SearchParameters \<Rightarrow> int \<Rightarrow> int \<Rightarrow> int \<Rightarrow> int" where
  "cqMateScore C P plies alpha beta =
     (let score = - MATE_SCORE C + ply P + plies
      in if score \<ge> beta then beta else if score > alpha then score else alpha)"

definition checkQuiescence_body ::
    "('b, 't, 'g) Env \<Rightarrow> ('b, 't) QSearch \<Rightarrow> ('b, 't) QSearch" where
  "checkQuiescence_body E qs st b plies alpha beta =
     (let color = getPlayerToMove (brd E) b;
          legalMoves = getPseudoLegalCheckEscapes (brd E) b color in
      case qs_moves E qs st b color plies alpha beta legalMoves (- INFTY (cst E)) 0 of
        None \<Rightarrow> None
      | Some (Return v st) \<Rightarrow> Some (v, st)
      | Some (Done (alpha, score, j) st) \<Rightarrow>
          if score = - INFTY (cst E)
          then Some (cqMateScore (cst E) (searchParams st) plies alpha beta, st)
          else Some (alpha, st))"

text \<open>
  The recursion closed.  With \<open>fuel\<close> nested calls left, quiescence runs its body with
  the searches that have one less; checkQuiescence is entered from quiescence (the
  position is in check, or a checking move was played) and calls quiescence only.
\<close>

fun quiescence :: "('b, 't, 'g) Env \<Rightarrow> nat \<Rightarrow> ('b, 't) QSearch" where
  "quiescence E 0 = (\<lambda>st b plies alpha beta. None)"
| "quiescence E (Suc fuel) =
     quiescence_body E (quiescence E fuel) (checkQuiescence_body E (quiescence E fuel))"


section \<open>The principal variation search (search.cpp, PVS, probeTT and scoreMate)\<close>

text \<open>
  PVS takes the board by reference and may leave it changed (it plays and takes back
  null moves on it), and it writes the principal variation through \<open>pvLine\<close>; a result
  of the model is the score, the board, the line and the globals as the call leaves
  them.  As in the quiescence search, the functions that call PVS take it as the
  parameter \<open>pvs\<close>, and the recursion is closed at the end by \<open>fuel\<close>.
\<close>

type_synonym ('b, 't) Search =
  "'t SearchState \<Rightarrow> 'b \<Rightarrow> int \<Rightarrow> int \<Rightarrow> int \<Rightarrow> SearchPV
     \<Rightarrow> (int \<times> 'b \<times> SearchPV \<times> 't SearchState) option"

text \<open>\<open>changePV(best, parent, child)\<close>: the parent's line becomes \<open>best\<close> and the child's line.\<close>

definition changePV :: "Move \<Rightarrow> SearchPV \<Rightarrow> SearchPV" where
  "changePV best child = best # child"

definition scoreMate :: "Constants \<Rightarrow> SearchParameters \<Rightarrow> bool \<Rightarrow> int \<Rightarrow> int \<Rightarrow> int \<Rightarrow> int" where
  "scoreMate C P inCheck depth alpha beta =
     (let score = (if inCheck then - MATE_SCORE C + ply P else 0)
      in if score \<ge> beta then beta else if score > alpha then score else alpha)"

text \<open>
  probeTT.  \<open>hashed\<close> and \<open>alpha\<close> are reference parameters: the result is the returned
  score, then \<open>hashed\<close>, \<open>alpha\<close> and the line as the call leaves them.  The message to
  \<open>cerr\<close> on a Type-1 error is not modelled.

  First its last part, entered when the entry gives no score cutoff: the stored move is
  played on a copy and, if legal, searched at once with the full window.
\<close>

definition probeTT_hashMove ::
    "('b, 't, 'g) Env \<Rightarrow> ('b, 't) Search \<Rightarrow> 't SearchState \<Rightarrow> 'b \<Rightarrow> Move \<Rightarrow> int \<Rightarrow> int \<Rightarrow> int
      \<Rightarrow> SearchPV \<Rightarrow> (int \<times> Move \<times> int \<times> SearchPV \<times> 't SearchState) option" where
  "probeTT_hashMove E pvs st b hashed depth alpha beta pvLine =
     (case doHashMove (brd E) b hashed (getPlayerToMove (brd E) b) of
        None \<Rightarrow> Some (- INFTY (cst E), NULL_MOVE (cst E), alpha, pvLine, st)
      | Some copy \<Rightarrow>
          (case pvs (incPly (count nodes_update (count hashMoveAttempts_update st)))
                  copy (depth - 1) (- beta) (- alpha) [] of
             None \<Rightarrow> None
           | Some (v, copy', line, st') \<Rightarrow>
               let st' = decPly st'; score = - v in
               if score \<ge> beta
               then Some (beta, hashed, alpha, pvLine, count hashMoveCuts_update st')
               else if score > alpha
               then Some (- INFTY (cst E), hashed, score, changePV hashed line, st')
               else Some (- INFTY (cst E), hashed, alpha, pvLine, st')))"

definition probeTT ::
    "('b, 't, 'g) Env \<Rightarrow> ('b, 't) Search \<Rightarrow> 't SearchState \<Rightarrow> 'b \<Rightarrow> Move \<Rightarrow> int \<Rightarrow> int \<Rightarrow> int
      \<Rightarrow> SearchPV \<Rightarrow> (int \<times> Move \<times> int \<times> SearchPV \<times> 't SearchState) option" where
  "probeTT E pvs st b hashed depth alpha beta pvLine =
     (case hash_get (tt E) (transpositionTable st) b of
        None \<Rightarrow> Some (- INFTY (cst E), hashed, alpha, pvLine, st)
      | Some entry \<Rightarrow>
          let st = count hashHits_update st;
              hashScore = entry_score entry;
              nodeType = entry_nodeType entry in
          if nodeType = ALL_NODE then
            (if entry_depth entry \<ge> depth \<and> hashScore \<le> alpha
             then Some (alpha, hashed, alpha, pvLine, count hashScoreCuts_update st)
             else Some (- INFTY (cst E), hashed, alpha, pvLine, st))
          else
            let hashed = entry_m entry in
            if entry_depth entry \<ge> depth \<and> nodeType = CUT_NODE \<and> hashScore \<ge> beta
            then Some (beta, hashed, alpha, pvLine,
                       count firstFailHighs_update (count failHighs_update
                         (count hashScoreCuts_update st)))
            else probeTT_hashMove E pvs st b hashed depth alpha beta pvLine)"

text \<open>
  Null move pruning.  The test, the reduction
  \<^verbatim>\<open>reduction = min(depth - 2, reduction + (staticEval - beta) / PAWN_VALUE);\<close>
  and the excursion.  The result says whether PVS returns beta, and gives the board,
  the line and the globals after the null move is taken back.
\<close>

definition nullMoveApplies ::
    "('b, 't, 'g) Env \<Rightarrow> 't SearchState \<Rightarrow> 'b \<Rightarrow> Color \<Rightarrow> int \<Rightarrow> bool \<Rightarrow> bool \<Rightarrow> int \<Rightarrow> int \<Rightarrow> bool" where
  "nullMoveApplies E st b color depth isPVNode inCheck staticEval beta =
     (depth \<ge> 3 \<and> \<not> isPVNode \<and> \<not> inCheck \<and> nullMoveCount (searchParams st) < 2
      \<and> staticEval \<ge> beta \<and> getNonPawnMaterial (brd E) b color \<noteq> 0)"

definition nullMoveReduction :: "Constants \<Rightarrow> int \<Rightarrow> int \<Rightarrow> int \<Rightarrow> int" where
  "nullMoveReduction C depth staticEval beta =
     (let reduction = (if depth \<ge> 11 then 4 else if depth \<ge> 6 then 3 else 2)
      in min (depth - 2) (reduction + cdiv (staticEval - beta) (PAWN_VALUE C)))"

definition pvs_nullMove ::
    "('b, 't, 'g) Env \<Rightarrow> ('b, 't) Search \<Rightarrow> 't SearchState \<Rightarrow> 'b \<Rightarrow> Color \<Rightarrow> int \<Rightarrow> int \<Rightarrow> int
      \<Rightarrow> bool \<Rightarrow> bool \<Rightarrow> int \<Rightarrow> SearchPV \<Rightarrow> (bool \<times> 'b \<times> SearchPV \<times> 't SearchState) option" where
  "pvs_nullMove E pvs st b color depth alpha beta isPVNode inCheck staticEval line =
     (if nullMoveApplies E st b color depth isPVNode inCheck staticEval beta then
        let reduction = nullMoveReduction (cst E) depth staticEval beta in
        case pvs (incPly (incNullMoveCount st)) (doNullMove (brd E) b)
               (depth - 1 - reduction) (- beta) (- alpha) line of
          None \<Rightarrow> None
        | Some (v, b', line', st') \<Rightarrow>
            let st' = decPly st'; nullScore = - v in
            if nullScore \<ge> beta
            then Some (True, doNullMove (brd E) b', line', decNullMoveCount st')
            else Some (False, doNullMove (brd E) b', line', decNullMoveCount st')
      else Some (False, b, line, st))"

definition reverseFutility ::
    "('b, 't, 'g) Env \<Rightarrow> 'b \<Rightarrow> Color \<Rightarrow> int \<Rightarrow> bool \<Rightarrow> bool \<Rightarrow> int \<Rightarrow> int \<Rightarrow> bool" where
  "reverseFutility E b color depth isPVNode inCheck staticEval beta =
     (\<not> isPVNode \<and> \<not> inCheck
      \<and> (depth \<le> 2 \<and> staticEval - REVERSE_FUTILITY_MARGIN (cst E) depth \<ge> beta)
      \<and> getNonPawnMaterial (brd E) b color \<noteq> 0)"

text \<open>
  The head of the move loop: the clock is read, and \<open>isStop\<close> is set when the time
  limit is passed.
\<close>

definition checkTime :: "('b, 't, 'g) Env \<Rightarrow> 't SearchState \<Rightarrow> 't SearchState" where
  "checkTime E st =
     (let timeSoFar = getTimeElapsed E (clockReads st);
          st1 = st\<lparr>clockReads := clockReads st + 1\<rparr>
      in if timeSoFar > timeLimit (searchParams st) then st1\<lparr>isStop := True\<rparr> else st1)"

definition futilityPrune ::
    "('b, 't, 'g) Env \<Rightarrow> 'b \<Rightarrow> Color \<Rightarrow> 'g SearchSpace \<Rightarrow> int \<Rightarrow> int \<Rightarrow> int \<Rightarrow> Move \<Rightarrow> bool" where
  "futilityPrune E b color ss depth staticEval alpha m =
     (depth \<le> 3 \<and> staticEval \<le> alpha - FUTILITY_MARGIN (cst E) depth
      \<and> nodeIsReducible ss \<and> \<not> isCapture (mv E) m \<and> \<bar>alpha\<bar> < QUEEN_VALUE (cst E)
      \<and> \<not> isPromotion (mv E) m \<and> \<not> isCheckMove (brd E) b m color)"

text \<open>
  Late move reduction.  The source computes
  \<^verbatim>\<open>(int) (((double) depth - 3.0) / 4.0 + ((double) movesSearched) / 9.5)\<close>
  which is the integer part of \<open>(19 (depth - 3) + 8 movesSearched) / 76\<close>; it is read
  only where \<open>depth \<ge> 3\<close>, so the quotient is not negative.
\<close>

definition lmrApplies ::
    "('b, 't, 'g) Env \<Rightarrow> 't SearchState \<Rightarrow> 'b \<Rightarrow> Color \<Rightarrow> 'g SearchSpace \<Rightarrow> int \<Rightarrow> int \<Rightarrow> int
      \<Rightarrow> Move \<Rightarrow> nat \<Rightarrow> bool" where
  "lmrApplies E st copy color ss depth prevAlpha alpha m movesSearched =
     (nodeIsReducible ss \<and> \<not> isCapture (mv E) m \<and> depth \<ge> 3 \<and> movesSearched > 2
      \<and> alpha \<le> prevAlpha
      \<and> m \<noteq> fst (killers (searchParams st) (ply (searchParams st)))
      \<and> m \<noteq> snd (killers (searchParams st) (ply (searchParams st)))
      \<and> \<not> isPromotion (mv E) m \<and> \<not> isInCheck (brd E) copy (other color))"

definition lmrReduction :: "int \<Rightarrow> nat \<Rightarrow> int" where
  "lmrReduction depth movesSearched =
     min (depth - 2) ((19 * (depth - 3) + 8 * int movesSearched) div 76)"

text \<open>
  The search of one move: the null window with a re-search at full depth, or the full
  window for the first move.  The copy of the board is passed by reference to both
  searches.
\<close>

definition pvs_searchMove ::
    "('b, 't, 'g) Env \<Rightarrow> ('b, 't) Search \<Rightarrow> 't SearchState \<Rightarrow> 'b \<Rightarrow> int \<Rightarrow> int \<Rightarrow> int \<Rightarrow> int
      \<Rightarrow> nat \<Rightarrow> SearchPV \<Rightarrow> (int \<times> SearchPV \<times> 't SearchState) option" where
  "pvs_searchMove E pvs st copy depth reduction alpha beta movesSearched line =
     (if movesSearched \<noteq> 0 then
        (case pvs (incPly st) copy (depth - 1 - reduction) (- alpha - 1) (- alpha) line of
           None \<Rightarrow> None
         | Some (v, copy', line', st') \<Rightarrow>
             let st' = decPly st'; score = - v in
             if alpha < score \<and> score < beta then
               (case pvs (incPly st') copy' (depth - 1) (- beta) (- alpha) line' of
                  None \<Rightarrow> None
                | Some (v', copy'', line'', st'') \<Rightarrow> Some (- v', line'', decPly st''))
             else Some (score, line', st'))
      else
        (case pvs (incPly st) copy (depth - 1) (- beta) (- alpha) line of
           None \<Rightarrow> None
         | Some (v, copy', line', st') \<Rightarrow> Some (- v, line', decPly st')))"

text \<open>
  The killer update
  \<^verbatim>\<open>if (m != searchParams.killers[searchParams.ply][0]) {
      searchParams.killers[searchParams.ply][1] = searchParams.killers[searchParams.ply][0];
      searchParams.killers[searchParams.ply][0] = m; }\<close>
  and the history update with the decay of the other quiet moves.
\<close>

definition recordKiller :: "Move \<Rightarrow> SearchParameters \<Rightarrow> SearchParameters" where
  "recordKiller m P =
     (if m \<noteq> fst (killers P (ply P))
      then P\<lparr>killers := (killers P)(ply P := (m, fst (killers P (ply P))))\<rparr>
      else P)"

definition addHistory ::
    "('b, 't, 'g) Env \<Rightarrow> 'b \<Rightarrow> Color \<Rightarrow> 'g SearchSpace \<Rightarrow> int \<Rightarrow> Move
      \<Rightarrow> SearchParameters \<Rightarrow> SearchParameters" where
  "addHistory E b color ss depth m P =
     (let piece = getPieceOnSquare (brd E) b color (getStartSq (mv E) m);
          sq = getEndSq (mv E) m;
          h = historyTable P;
          h1 = h(color := (h color)(piece := (h color piece)(sq := h color piece sq + depth * depth)))
      in P\<lparr>historyTable := reduceBadHistories (sso E) (ss_moves ss) m h1\<rparr>)"

text \<open>What PVS does at a beta cutoff of the move loop, before \<open>return beta\<close>.\<close>

definition pvs_cutoff ::
    "('b, 't, 'g) Env \<Rightarrow> 't SearchState \<Rightarrow> 'b \<Rightarrow> Color \<Rightarrow> 'g SearchSpace \<Rightarrow> int \<Rightarrow> int \<Rightarrow> Move
      \<Rightarrow> nat \<Rightarrow> 't SearchState" where
  "pvs_cutoff E st b color ss depth beta m movesSearched =
     (let st1 = count failHighs_update st;
          st2 = (if movesSearched = 0 then count firstFailHighs_update st1 else st1);
          st3 = st2\<lparr>transpositionTable :=
                  hash_add (tt E) (transpositionTable st2) b depth m beta CUT_NODE
                    (rootMoveNumber (searchParams st2))\<rparr>
      in if \<not> isCapture (mv E) m
         then st3\<lparr>searchParams := addHistory E b color ss depth m (recordKiller m (searchParams st3))\<rparr>
         else st3)"

text \<open>What PVS does after the move loop when some move was searched or pruned.\<close>

definition pvs_epilogue ::
    "('b, 't, 'g) Env \<Rightarrow> 't SearchState \<Rightarrow> 'b \<Rightarrow> Color \<Rightarrow> 'g SearchSpace \<Rightarrow> int \<Rightarrow> int \<Rightarrow> int
      \<Rightarrow> int \<Rightarrow> Move \<Rightarrow> 't SearchState" where
  "pvs_epilogue E st b color ss depth prevAlpha alpha beta toHash =
     (if toHash \<noteq> NULL_MOVE (cst E) \<and> prevAlpha < alpha \<and> alpha < beta then
        let st1 = st\<lparr>transpositionTable :=
                    hash_add (tt E) (transpositionTable st) b depth toHash alpha PV_NODE
                      (rootMoveNumber (searchParams st))\<rparr>
        in if \<not> isCapture (mv E) toHash
           then st1\<lparr>searchParams := addHistory E b color ss depth toHash (searchParams st1)\<rparr>
           else st1
      else if alpha \<le> prevAlpha then
        st\<lparr>transpositionTable :=
             hash_add (tt E) (transpositionTable st) b depth (NULL_MOVE (cst E)) alpha ALL_NODE
               (rootMoveNumber (searchParams st))\<rparr>
      else st)"

text \<open>
  The body of the move loop, for the move \<open>m\<close> that the iterator gave: it ends by a
  \<open>return\<close> (the stop flag, or a beta cutoff) of a score and the line, or goes on with
  the loop's variables \<open>alpha\<close>, \<open>toHash\<close>, \<open>score\<close>, the two lines and \<open>movesSearched\<close>.
\<close>

type_synonym 't PVSMoveExit =
  "(int \<times> SearchPV, int \<times> Move \<times> int \<times> SearchPV \<times> SearchPV \<times> nat, 't SearchState) LoopExit"

definition pvs_move ::
    "('b, 't, 'g) Env \<Rightarrow> ('b, 't) Search \<Rightarrow> 't SearchState \<Rightarrow> 'b \<Rightarrow> Color
      \<Rightarrow> 'g SearchSpace \<Rightarrow> int \<Rightarrow> int \<Rightarrow> int \<Rightarrow> int \<Rightarrow> int \<Rightarrow> SearchPV \<Rightarrow> SearchPV \<Rightarrow> Move
      \<Rightarrow> nat \<Rightarrow> int \<Rightarrow> Move \<Rightarrow> 't PVSMoveExit option" where
  "pvs_move E pvs st b color ss depth prevAlpha alpha beta staticEval pvLine line toHash
      movesSearched score m =
     (let st1 = checkTime E st in
      if isStop st1 then Some (Return (- INFTY (cst E), pvLine) st1)
      else if futilityPrune E b color ss depth staticEval alpha m then
        Some (Done (alpha, toHash, alpha, pvLine, line, movesSearched) st1)
      else
        (case doPseudoLegalMove (brd E) b m color of
           None \<Rightarrow> Some (Done (alpha, toHash, score, pvLine, line, movesSearched) st1)
         | Some copy \<Rightarrow>
             let st2 = count nodes_update st1;
                 reduction =
                   (if lmrApplies E st2 copy color ss depth prevAlpha alpha m movesSearched
                    then lmrReduction depth movesSearched else 0) in
             (case pvs_searchMove E pvs st2 copy depth reduction alpha beta movesSearched line of
                None \<Rightarrow> None
              | Some (score', line', st3) \<Rightarrow>
                  if score' \<ge> beta then
                    Some (Return (beta, pvLine)
                            (pvs_cutoff E st3 b color ss depth beta m movesSearched))
                  else if score' > alpha then
                    Some (Done (score', m, score', changePV m line', line', movesSearched + 1) st3)
                  else
                    Some (Done (alpha, toHash, score', pvLine, line', movesSearched + 1) st3))))"

text \<open>
  The move loop
  \<^verbatim>\<open>for (Move m = ss.nextMove(); m != NULL_MOVE; m = ss.nextMove()) { ... }\<close>
  The iterator is a value of an unknown type, so the model cannot see how many moves
  it has left: the loop takes a bound \<open>k\<close> on its iterations and is \<open>None\<close> beyond it.
  At NULL_MOVE it ends with \<open>alpha\<close>, \<open>toHash\<close>, \<open>score\<close>, the line and the iterator.
\<close>

type_synonym ('t, 'g) PVSLoopExit =
  "(int \<times> SearchPV, int \<times> Move \<times> int \<times> SearchPV \<times> 'g SearchSpace, 't SearchState) LoopExit"

fun pvs_loop ::
    "('b, 't, 'g) Env \<Rightarrow> ('b, 't) Search \<Rightarrow> nat \<Rightarrow> 't SearchState \<Rightarrow> 'b \<Rightarrow> Color
      \<Rightarrow> 'g SearchSpace \<Rightarrow> int \<Rightarrow> int \<Rightarrow> int \<Rightarrow> int \<Rightarrow> int \<Rightarrow> SearchPV \<Rightarrow> SearchPV \<Rightarrow> Move
      \<Rightarrow> nat \<Rightarrow> int \<Rightarrow> ('t, 'g) PVSLoopExit option" where
  "pvs_loop E pvs 0 st b color ss depth prevAlpha alpha beta staticEval pvLine line toHash
      movesSearched score = None"
| "pvs_loop E pvs (Suc k) st b color ss depth prevAlpha alpha beta staticEval pvLine line toHash
      movesSearched score =
     (let r = ss_nextMove (sso E) (ss_moves ss) (searchParams st);
          m = fst r;
          ss' = ss\<lparr>ss_moves := snd r\<rparr> in
      if m = NULL_MOVE (cst E) then Some (Done (alpha, toHash, score, pvLine, ss') st)
      else
        (case pvs_move E pvs st b color ss' depth prevAlpha alpha beta staticEval pvLine line
                toHash movesSearched score m of
           None \<Rightarrow> None
         | Some (Return r st') \<Rightarrow> Some (Return r st')
         | Some (Done (alpha', toHash', score', pvLine', line', movesSearched') st') \<Rightarrow>
             pvs_loop E pvs k st' b color ss' depth prevAlpha alpha' beta staticEval pvLine'
               line' toHash' movesSearched' score'))"

text \<open>
  The body of PVS.  \<open>qs\<close> is the quiescence search it enters at \<open>depth \<le> 0\<close>, and \<open>k\<close>
  the bound of its move loop.
\<close>

definition PVS_body ::
    "('b, 't, 'g) Env \<Rightarrow> ('b, 't) Search \<Rightarrow> ('b, 't) QSearch \<Rightarrow> nat \<Rightarrow> ('b, 't) Search" where
  "PVS_body E pvs qs k st b depth alpha beta pvLine =
     (if depth \<le> 0 then
        (case qs st b 0 alpha beta of
           None \<Rightarrow> None
         | Some (v, st') \<Rightarrow> Some (v, b, [], st'))
      else if isDraw (brd E) b then
        Some ((if 0 \<ge> beta then beta else if 0 > alpha then 0 else alpha), b, pvLine, st)
      else
        let prevAlpha = alpha;
            color = getPlayerToMove (brd E) b in
        case probeTT E pvs (count hashProbes_update st) b (NULL_MOVE (cst E)) depth alpha beta
               pvLine of
          None \<Rightarrow> None
        | Some (hashScore, hashed, alpha, pvLine, st) \<Rightarrow>
            if hashScore \<noteq> - INFTY (cst E) then Some (hashScore, b, pvLine, st)
            else
              let isPVNode = (beta - alpha \<noteq> 1);
                  inCheck = isInCheck (brd E) b color;
                  staticEval = (if color = WHITE then evaluate (brd E) b
                                else - evaluate (brd E) b) in
              (case pvs_nullMove E pvs st b color depth alpha beta isPVNode inCheck staticEval [] of
                 None \<Rightarrow> None
               | Some (cutoff, b, line, st) \<Rightarrow>
                   if cutoff then Some (beta, b, pvLine, st)
                   else if reverseFutility E b color depth isPVNode inCheck staticEval beta
                   then Some (beta, b, pvLine, st)
                   else
                     let ss = \<lparr>ss_isPVNode = isPVNode, ss_isInCheck = inCheck,
                               ss_moves = generateMoves (sso E) b color depth isPVNode inCheck
                                            (searchParams st) hashed\<rparr>;
                         movesSearched = (if hashed = NULL_MOVE (cst E) then 0 else 1) in
                     (case pvs_loop E pvs k st b color ss depth prevAlpha alpha beta staticEval
                             pvLine line (NULL_MOVE (cst E)) movesSearched (- INFTY (cst E)) of
                        None \<Rightarrow> None
                      | Some (Return (v, pvLine) st) \<Rightarrow> Some (v, b, pvLine, st)
                      | Some (Done (alpha, toHash, score, pvLine, ss) st) \<Rightarrow>
                          if score = - INFTY (cst E) then
                            Some (scoreMate (cst E) (searchParams st) (ss_isInCheck ss) depth
                                    alpha beta, b, pvLine, st)
                          else
                            Some (alpha, b, pvLine,
                                  pvs_epilogue E st b color ss depth prevAlpha alpha beta toHash))))"

text \<open>
  The recursion closed: with \<open>fuel\<close> left, PVS runs its body with the searches that
  have one less, and lets its move loop make as many iterations.
\<close>

fun PVS :: "('b, 't, 'g) Env \<Rightarrow> nat \<Rightarrow> ('b, 't) Search" where
  "PVS E 0 = (\<lambda>st b depth alpha beta pvLine. None)"
| "PVS E (Suc fuel) = PVS_body E (PVS E fuel) (quiescence E fuel) fuel"

section \<open>A small environment for concrete runs\<close>

text \<open>
  Five positions, numbered: 0 (White to move, one quiet move, 1, that mates: it leads
  to position 1), 1 (Black to move, in check, no move), 2 (White to move, not in
  check, one pseudo-legal move, 7, that is not legal: a stalemate, with an evaluation
  of 1000 for White), 3 (White to move, one capture, 5, leading to 4), 4 (Black to
  move, quiet), and 9 (a drawn position).  The table is an association list, newest
  entry first; the move iterator is the list of the pseudo-legal moves left; the
  clock always reads 0.
\<close>

definition exConstants :: Constants where
  "exConstants = \<lparr>NULL_MOVE = 0, INFTY = 32767, MATE_SCORE = 32766, MAX_DEPTH = 127,
     MAX_POS_SCORE = 200, PAWN_VALUE = 100, KNIGHT_VALUE = 320, QUEEN_VALUE = 950\<rparr>"

definition exPlay :: "nat \<Rightarrow> Move \<Rightarrow> Color \<Rightarrow> nat option" where
  "exPlay b m c = (if b = 0 \<and> m = 1 then Some 1 else if b = 3 \<and> m = 5 then Some 4 else None)"

definition exBoard :: "nat Board" where
  "exBoard = \<lparr>
     getPlayerToMove = (\<lambda>b. if b = 1 \<or> b = 4 then BLACK else WHITE),
     isDraw = (\<lambda>b. b = 9),
     isInCheck = (\<lambda>b c. b = 1),
     isCheckMove = (\<lambda>b m c. False),
     getNonPawnMaterial = (\<lambda>b c. 1),
     evaluate = (\<lambda>b. if b = 2 then 1000 else 0),
     evaluateMaterial = (\<lambda>b. 0),
     evaluatePositional = (\<lambda>b. 0),
     valueOfPiece = (\<lambda>b p. 0),
     getPieceOnSquare = (\<lambda>b c s. 0),
     getMVVLVAScore = (\<lambda>b c m. 0),
     getExchangeScore = (\<lambda>b c m. 0),
     getSEE = (\<lambda>b c s. 0),
     getPseudoLegalCaptures = (\<lambda>b c i. if b = 3 then [5] else []),
     getPseudoLegalPromotions = (\<lambda>b c. []),
     getPseudoLegalChecks = (\<lambda>b c. []),
     getPseudoLegalCheckEscapes = (\<lambda>b c. []),
     doPseudoLegalMove = exPlay,
     doHashMove = exPlay,
     doNullMove = (\<lambda>b. b)\<rparr>"

definition exMoveOps :: MoveOps where
  "exMoveOps = \<lparr>isCapture = (\<lambda>m. m = 5), isPromotion = (\<lambda>m. False),
     getStartSq = (\<lambda>m. 0), getEndSq = (\<lambda>m. 0)\<rparr>"

definition exHash :: "(nat, (nat \<times> HashEntry) list) Hash" where
  "exHash = \<lparr>
     hash_get = (\<lambda>t b. map_of t b),
     hash_add = (\<lambda>t b depth m score nodeType age.
        (b, \<lparr>entry_m = m, entry_score = score, entry_depth = depth, entry_nodeType = nodeType\<rparr>) # t)\<rparr>"

definition exSearchSpaceOps :: "(nat, Move list) SearchSpaceOps" where
  "exSearchSpaceOps = \<lparr>
     generateMoves = (\<lambda>b color depth isPVNode inCheck P hashed.
        if b = 0 then [1] else if b = 2 then [7] else if b = 3 then [5] else []),
     ss_nextMove = (\<lambda>g P. case g of [] \<Rightarrow> (0, []) | m # ms \<Rightarrow> (m, ms)),
     reduceBadHistories = (\<lambda>g m h. h)\<rparr>"

definition exEnv :: "(nat, (nat \<times> HashEntry) list, Move list) Env" where
  "exEnv = \<lparr>cst = exConstants, brd = exBoard, mv = exMoveOps, tt = exHash,
     sso = exSearchSpaceOps, getTimeElapsed = (\<lambda>k. 0)\<rparr>"

definition exStatistics :: SearchStatistics where
  "exStatistics = \<lparr>nodes = 0, hashProbes = 0, hashHits = 0, hashScoreCuts = 0,
     hashMoveAttempts = 0, hashMoveCuts = 0, failHighs = 0, firstFailHighs = 0,
     qsNodes = 0, qsFailHighs = 0, qsFirstFailHighs = 0\<rparr>"

definition exParameters :: SearchParameters where
  "exParameters = \<lparr>ply = 0, nullMoveCount = 0, rootMoveNumber = 1,
     killers = (\<lambda>p. (0, 0)), historyTable = (\<lambda>c p s. 0), timeLimit = 1000\<rparr>"

definition exState :: "(nat \<times> HashEntry) list SearchState" where
  "exState = \<lparr>transpositionTable = [], searchParams = exParameters,
     searchStats = exStatistics, isStop = False, clockReads = 0\<rparr>"


text \<open>
  The same positions with a null move that changes the side to move: it leads from
  position 2 to position 6 (Black to move, the same evaluation of 1000 for White, no
  move) and back.
\<close>

definition exNullEnv :: "(nat, (nat \<times> HashEntry) list, Move list) Env" where
  "exNullEnv = exEnv\<lparr>
     brd := exBoard\<lparr>
       getPlayerToMove := (\<lambda>b. if b = 1 \<or> b = 4 \<or> b = 6 then BLACK else WHITE),
       evaluate := (\<lambda>b. if b = 2 \<or> b = 6 then 1000 else 0),
       doNullMove := (\<lambda>b. if b = 2 then 6 else if b = 6 then 2 else b)\<rparr>\<rparr>"

text \<open>
  Four more positions that make a perpetual check: in position 10 White gives check by
  the move 11, which leads to position 11; there Black escapes by the move 12 to
  position 12; White gives check again by 13, Black escapes by 14, back to position 10.
\<close>

definition exCheckPlay :: "nat \<Rightarrow> Move \<Rightarrow> Color \<Rightarrow> nat option" where
  "exCheckPlay b m c =
     (if b = 10 \<and> m = 11 then Some 11 else if b = 11 \<and> m = 12 then Some 12
      else if b = 12 \<and> m = 13 then Some 13 else if b = 13 \<and> m = 14 then Some 10
      else exPlay b m c)"

definition exCheckEnv :: "(nat, (nat \<times> HashEntry) list, Move list) Env" where
  "exCheckEnv = exEnv\<lparr>
     brd := exBoard\<lparr>
       getPlayerToMove := (\<lambda>b. if b = 1 \<or> b = 4 \<or> b = 11 \<or> b = 13 then BLACK else WHITE),
       isInCheck := (\<lambda>b c. b = 1 \<or> b = 11 \<or> b = 13),
       getPseudoLegalChecks := (\<lambda>b c. if b = 10 then [11] else if b = 12 then [13] else []),
       getPseudoLegalCheckEscapes :=
         (\<lambda>b c. if b = 11 then [12] else if b = 13 then [14] else []),
       doPseudoLegalMove := exCheckPlay,
       doHashMove := exCheckPlay\<rparr>,
     sso := exSearchSpaceOps\<lparr>generateMoves := (\<lambda>b color depth isPVNode inCheck P hashed.
        if b = 0 then [1] else if b = 2 then [7] else if b = 3 then [5]
        else if b = 10 then [11] else if b = 11 then [12] else if b = 12 then [13]
        else if b = 13 then [14] else [])\<rparr>\<rparr>"

section \<open>Predicates used to state the properties\<close>

text \<open>
  A relation between the globals before and after a call is a \<open>frame\<close> of the search
  when it is reflexive and transitive and holds across each elementary change the
  search makes: a statistics counter, \<open>ply\<close> raised around a call and lowered after
  it, the same for \<open>nullMoveCount\<close> around the null move, the reading of the clock,
  and the bookkeeping at a beta cutoff and after the move loop.
\<close>

definition frameRel ::
    "('b, 't, 'g) Env \<Rightarrow> ('t SearchState \<Rightarrow> 't SearchState \<Rightarrow> bool) \<Rightarrow> bool" where
  "frameRel E R \<longleftrightarrow>
     (\<forall>st. R st st)
     \<and> (\<forall>s1 s2 s3. R s1 s2 \<longrightarrow> R s2 s3 \<longrightarrow> R s1 s3)
     \<and> (\<forall>f st. R st (count f st))
     \<and> (\<forall>st st'. R (incPly st) st' \<longrightarrow> R st (decPly st'))
     \<and> (\<forall>st st'. R (incPly (incNullMoveCount st)) st' \<longrightarrow> R st (decNullMoveCount (decPly st')))
     \<and> (\<forall>st. R st (checkTime E st))
     \<and> (\<forall>st b color ss depth beta m movesSearched.
           R st (pvs_cutoff E st b color ss depth beta m movesSearched))
     \<and> (\<forall>st b color ss depth prevAlpha alpha beta toHash.
           R st (pvs_epilogue E st b color ss depth prevAlpha alpha beta toHash))"

text \<open>The two killer slots of every ply differ, unless both are NULL_MOVE.\<close>

definition killersDistinct :: "Constants \<Rightarrow> SearchParameters \<Rightarrow> bool" where
  "killersDistinct C P \<longleftrightarrow>
     (\<forall>p. fst (killers P p) \<noteq> snd (killers P p)
          \<or> (fst (killers P p) = NULL_MOVE C \<and> snd (killers P p) = NULL_MOVE C))"

text \<open>No reading of the clock exceeds the time limit.\<close>

definition neverTimesOut :: "('b, 't, 'g) Env \<Rightarrow> 't SearchState \<Rightarrow> bool" where
  "neverTimesOut E st \<longleftrightarrow> (\<forall>k. getTimeElapsed E k \<le> timeLimit (searchParams st))"

text \<open>
  PVS with a check at every entry: a call that is entered with \<open>nullMoveCount\<close> above 2
  has no result.  It is the body of PVS, run with the checked search in place of PVS.
\<close>

fun PVS_checked :: "('b, 't, 'g) Env \<Rightarrow> nat \<Rightarrow> ('b, 't) Search" where
  "PVS_checked E 0 = (\<lambda>st b depth alpha beta pvLine. None)"
| "PVS_checked E (Suc fuel) =
     (\<lambda>st b depth alpha beta pvLine.
        if nullMoveCount (searchParams st) \<le> 2
        then PVS_body E (PVS_checked E fuel) (quiescence E fuel) fuel st b depth alpha beta pvLine
        else None)"

text \<open>
  What makes the search end.  The board and the move iterator are parameters, so that
  the search returns at all is a property of them.

  The move iterator is finite: every move it gives lowers the number \<open>left\<close> of its
  moves, and at most \<open>N\<close> are left when it is made (\<open>ss.generateMoves\<close>).
\<close>

definition iteratorBounded :: "('b, 't, 'g) Env \<Rightarrow> ('g \<Rightarrow> nat) \<Rightarrow> nat \<Rightarrow> bool" where
  "iteratorBounded E left N \<longleftrightarrow>
     (\<forall>b color depth isPVNode inCheck P hashed.
        left (generateMoves (sso E) b color depth isPVNode inCheck P hashed) \<le> N)
     \<and> (\<forall>g P. fst (ss_nextMove (sso E) g P) \<noteq> NULL_MOVE (cst E)
           \<longrightarrow> left (snd (ss_nextMove (sso E) g P)) < left g)"

text \<open>
  The quiescence search returns: entered as PVS enters it, with \<open>plies = 0\<close>, it needs
  no more than \<open>K\<close> nested calls, whatever the position, the window and the globals.
\<close>

definition quiescenceReturns :: "('b, 't, 'g) Env \<Rightarrow> nat \<Rightarrow> bool" where
  "quiescenceReturns E K \<longleftrightarrow>
     (\<forall>st b alpha beta. quiescence E K st b 0 alpha beta \<noteq> None)"

section \<open>Properties of nextMove\<close>

lemma length_swap_at [simp]: "length (swap_at i j xs) = length xs"
  by (simp add: swap_at_def)

lemma swap_at_nth:
  assumes "i < length xs" "j < length xs"
  shows "swap_at i j xs ! k = (if k = j then xs ! i else if k = i then xs ! j else xs ! k)"
  using assms by (auto simp: swap_at_def nth_list_update)

lemma mset_swap_at:
  assumes "i < length xs" "j < length xs"
  shows "mset (swap_at i j xs) = mset xs"
  using assms by (simp add: swap_at_def mset_swap)

lemma zip_swap_at:
  assumes "length xs = length ys" "i < length xs" "j < length xs"
  shows "zip (swap_at i j xs) (swap_at i j ys) = swap_at i j (zip xs ys)"
  using assms by (simp add: swap_at_def zip_update)

lemma take_swap_at:
  assumes "n \<le> i" "n \<le> j"
  shows "take n (swap_at i j xs) = take n xs"
  using assms by (simp add: swap_at_def)

lemma nextMove_scan_best:
  assumes "lo \<le> bestIndex" "bestIndex < i" "i \<le> sz"
    and "bestScore = scores ! bestIndex"
    and "\<forall>k. lo \<le> k \<and> k < i \<longrightarrow> scores ! k \<le> bestScore"
  shows "lo \<le> nextMove_scan scores sz bestIndex bestScore i
       \<and> nextMove_scan scores sz bestIndex bestScore i < sz
       \<and> (\<forall>k. lo \<le> k \<and> k < sz \<longrightarrow>
            scores ! k \<le> scores ! nextMove_scan scores sz bestIndex bestScore i)"
  using assms
proof (induction scores sz bestIndex bestScore i rule: nextMove_scan.induct)
  case (1 scores sz bestIndex bestScore i)
  show ?case
  proof (cases "i < sz")
    case False
    then have "nextMove_scan scores sz bestIndex bestScore i = bestIndex"
      by (subst nextMove_scan.simps) simp
    moreover from False "1.prems" have "i = sz" by simp
    ultimately show ?thesis using "1.prems" by simp
  next
    case True
    show ?thesis
    proof (cases "scores ! i > bestScore")
      case gt: True
      have unfold: "nextMove_scan scores sz bestIndex bestScore i
                    = nextMove_scan scores sz i (scores ! i) (i + 1)"
        using True gt by (subst nextMove_scan.simps) simp
      have pre: "\<forall>k. lo \<le> k \<and> k < i + 1 \<longrightarrow> scores ! k \<le> scores ! i"
      proof (intro allI impI)
        fix k assume k: "lo \<le> k \<and> k < i + 1"
        show "scores ! k \<le> scores ! i"
        proof (cases "k = i")
          case True then show ?thesis by simp
        next
          case False
          with k have "k < i" by simp
          with k "1.prems"(5) have "scores ! k \<le> bestScore" by blast
          with gt show ?thesis by simp
        qed
      qed
      have "lo \<le> i" using "1.prems" by simp
      moreover have "i < i + 1" "i + 1 \<le> sz" using True by simp_all
      ultimately show ?thesis
        using "1.IH"(1) [OF True gt _ _ _ refl pre] unfold by simp
    next
      case le: False
      have unfold: "nextMove_scan scores sz bestIndex bestScore i
                    = nextMove_scan scores sz bestIndex bestScore (i + 1)"
        using True le by (subst nextMove_scan.simps) simp
      have pre: "\<forall>k. lo \<le> k \<and> k < i + 1 \<longrightarrow> scores ! k \<le> bestScore"
      proof (intro allI impI)
        fix k assume k: "lo \<le> k \<and> k < i + 1"
        show "scores ! k \<le> bestScore"
        proof (cases "k = i")
          case True with le show ?thesis by simp
        next
          case False
          with k have "k < i" by simp
          with k "1.prems"(5) show ?thesis by blast
        qed
      qed
      have "bestIndex < i + 1" "i + 1 \<le> sz" using "1.prems" True by simp_all
      then show ?thesis
        using "1.IH"(2) [OF True le "1.prems"(1) _ _ "1.prems"(4) pre] unfold by simp
    qed
  qed
qed

lemma nextMove_null:
  "index \<ge> length moves \<Longrightarrow> nextMove nullMove moves scores index = (nullMove, moves, scores)"
  by (simp add: nextMove_def)

lemma nextMove_step:
  assumes len: "length scores = length moves" and idx: "index < length moves"
    and res: "nextMove nullMove moves scores index = (m, moves', scores')"
  shows "\<exists>bestIndex. index \<le> bestIndex \<and> bestIndex < length moves
           \<and> (\<forall>k. index \<le> k \<and> k < length moves \<longrightarrow> scores ! k \<le> scores ! bestIndex)
           \<and> moves' = swap_at bestIndex index moves
           \<and> scores' = swap_at bestIndex index scores
           \<and> m = moves ! bestIndex"
proof -
  define bi where "bi = nextMove_scan scores (length moves) index (scores ! index) (index + 1)"
  have pre: "\<forall>k. index \<le> k \<and> k < index + 1 \<longrightarrow> scores ! k \<le> scores ! index"
    by (auto simp: le_less_Suc_eq)
  have "index \<le> bi \<and> bi < length moves
        \<and> (\<forall>k. index \<le> k \<and> k < length moves \<longrightarrow> scores ! k \<le> scores ! bi)"
    unfolding bi_def
    by (rule nextMove_scan_best [OF le_refl _ _ refl pre]) (use idx in simp_all)
  moreover have "moves' = swap_at bi index moves" "scores' = swap_at bi index scores"
    "m = swap_at bi index moves ! index"
    using res idx by (auto simp: nextMove_def bi_def Let_def)
  ultimately show ?thesis
    using idx by (auto simp: swap_at_nth intro!: exI [of _ bi])
qed

lemma mset_drop_swap_at:
  assumes "n \<le> i" "n \<le> j" "i < length xs" "j < length xs"
  shows "mset (drop n (swap_at i j xs)) = mset (drop n xs)"
proof -
  have "mset (take n (swap_at i j xs)) + mset (drop n (swap_at i j xs)) = mset (swap_at i j xs)"
    by (metis append_take_drop_id mset_append)
  also have "\<dots> = mset (take n xs) + mset (drop n xs)"
    using assms by (metis append_take_drop_id mset_append mset_swap_at)
  finally show ?thesis
    using assms by (simp add: take_swap_at)
qed

lemma nextMove_calls_props:
  assumes "length scores = length moves"
  shows "sorted_wrt (\<lambda>a b. a \<ge> b) (map snd (nextMove_calls nullMove moves scores index k))
       \<and> mset (nextMove_calls nullMove moves scores index k) \<subseteq># mset (drop index (zip moves scores))
       \<and> (length moves \<le> index + k \<longrightarrow>
            mset (nextMove_calls nullMove moves scores index k) = mset (drop index (zip moves scores)))"
  using assms
proof (induction k arbitrary: moves scores index)
  case 0
  then show ?case by simp
next
  case (Suc k)
  show ?case
  proof (cases "index \<ge> length moves")
    case True
    then show ?thesis by (simp add: nextMove_null)
  next
    case False
    then have idx: "index < length moves" by simp
    obtain m moves' scores' where res: "nextMove nullMove moves scores index = (m, moves', scores')"
      by (metis prod_cases3)
    from nextMove_step [OF Suc.prems idx res] obtain bi where
      bi: "index \<le> bi" "bi < length moves"
        "\<forall>k. index \<le> k \<and> k < length moves \<longrightarrow> scores ! k \<le> scores ! bi"
        "moves' = swap_at bi index moves" "scores' = swap_at bi index scores" "m = moves ! bi"
      by blast
    have len': "length scores' = length moves'" using bi Suc.prems by simp
    have lenm: "length moves' = length moves" using bi by simp
    let ?rest = "nextMove_calls nullMove moves' scores' (Suc index) k"
    have IH: "sorted_wrt (\<lambda>a b. a \<ge> b) (map snd ?rest)"
      "mset ?rest \<subseteq># mset (drop (Suc index) (zip moves' scores'))"
      "length moves' \<le> Suc index + k \<longrightarrow> mset ?rest = mset (drop (Suc index) (zip moves' scores'))"
      using Suc.IH [OF len'] by blast+
    have calls: "nextMove_calls nullMove moves scores index (Suc k) = (m, scores' ! index) # ?rest"
      using res idx by simp
    have zip': "zip moves' scores' = swap_at bi index (zip moves scores)"
      using bi Suc.prems idx by (simp add: zip_swap_at)
    have at_index: "zip moves' scores' ! index = (m, scores' ! index)"
      using bi idx Suc.prems by (simp add: swap_at_nth)
    have sc: "scores' ! index = scores ! bi"
      using bi idx Suc.prems by (simp add: swap_at_nth)
    have drop_eq: "drop index (zip moves' scores') = (m, scores' ! index) # drop (Suc index) (zip moves' scores')"
      using at_index idx lenm len' by (metis Cons_nth_drop_Suc length_zip min.idem)
    have mset_eq: "mset (drop index (zip moves' scores')) = mset (drop index (zip moves scores))"
      unfolding zip' using bi idx Suc.prems by (intro mset_drop_swap_at) simp_all
    have bound: "\<forall>p \<in> set ?rest. snd p \<le> scores' ! index"
    proof
      fix p assume "p \<in> set ?rest"
      then have "p \<in># mset (drop (Suc index) (zip moves' scores'))"
        using IH(2) by (meson mset_subset_eqD set_mset_mset in_multiset_in_set)
      then have "p \<in> set (drop (Suc index) (zip moves' scores'))" by simp
      then obtain j where j: "j < length (drop (Suc index) (zip moves' scores'))"
        "p = drop (Suc index) (zip moves' scores') ! j"
        by (metis in_set_conv_nth)
      then have jlt: "Suc index + j < length moves" using lenm len' by simp
      have "p = (moves' ! (Suc index + j), scores' ! (Suc index + j))"
        using j jlt lenm len' by simp
      then have "snd p = scores' ! (Suc index + j)" by simp
      also have "\<dots> = (if Suc index + j = bi then scores ! index else scores ! (Suc index + j))"
        using bi idx jlt Suc.prems by (simp add: swap_at_nth)
      also have "\<dots> \<le> scores ! bi"
        using bi(3) idx jlt by auto
      finally show "snd p \<le> scores' ! index" using sc by simp
    qed
    have "sorted_wrt (\<lambda>a b. a \<ge> b) (map snd ((m, scores' ! index) # ?rest))"
      using IH(1) bound by auto
    moreover have "mset ((m, scores' ! index) # ?rest) \<subseteq># mset (drop index (zip moves scores))"
      using IH(2) drop_eq mset_eq by (metis mset.simps(2) mset_subset_eq_add_mset_cancel)
    moreover have "length moves \<le> index + Suc k \<longrightarrow>
        mset ((m, scores' ! index) # ?rest) = mset (drop index (zip moves scores))"
      using IH(3) drop_eq mset_eq lenm by (metis add_Suc add_Suc_right mset.simps(2))
    ultimately show ?thesis
      unfolding calls by blast
  qed
qed


text \<open>
  C9.  For a move list with a parallel score list: nextMove returns NULL_MOVE and
  leaves the lists alone when \<open>index \<ge> moves.size()\<close>; otherwise it returns the move
  at some position \<open>bestIndex \<ge> index\<close> whose score is maximal among the positions
  \<open>index .. size - 1\<close>, and has swapped that move and its score into position \<open>index\<close>.
  The entries of a move list are moves, none of them the no-move value NULL_MOVE (the
  only caller passes the captures the board generates and ends its loop at
  NULL_MOVE): so the result is NULL_MOVE if and only if \<open>index \<ge> moves.size()\<close>.
  Successive calls with index 0, 1, 2, ... return the moves in descending score
  order, each move of the list exactly once.
\<close>

theorem nextMove_partial_selection_sort:
  assumes "length scores = length moves"
  shows "(index \<ge> length moves \<longrightarrow>
            nextMove nullMove moves scores index = (nullMove, moves, scores))
       \<and> (index < length moves \<longrightarrow>
            (\<exists>bestIndex. index \<le> bestIndex \<and> bestIndex < length moves
               \<and> (\<forall>k. index \<le> k \<and> k < length moves \<longrightarrow> scores ! k \<le> scores ! bestIndex)
               \<and> nextMove nullMove moves scores index
                   = (moves ! bestIndex, swap_at bestIndex index moves,
                      swap_at bestIndex index scores)
               \<and> swap_at bestIndex index moves ! index = moves ! bestIndex
               \<and> swap_at bestIndex index scores ! index = scores ! bestIndex))
       \<and> (nullMove \<notin> set moves \<longrightarrow>
            (fst (nextMove nullMove moves scores index) = nullMove \<longleftrightarrow> index \<ge> length moves))
       \<and> sorted_wrt (\<lambda>a b. a \<ge> b)
            (map snd (nextMove_calls nullMove moves scores 0 (length moves)))
       \<and> mset (nextMove_calls nullMove moves scores 0 (length moves)) = mset (zip moves scores)"
proof -
  have A: "index \<ge> length moves \<longrightarrow>
            nextMove nullMove moves scores index = (nullMove, moves, scores)"
    by (simp add: nextMove_null)
  have B: "index < length moves \<longrightarrow>
            (\<exists>bestIndex. index \<le> bestIndex \<and> bestIndex < length moves
               \<and> (\<forall>k. index \<le> k \<and> k < length moves \<longrightarrow> scores ! k \<le> scores ! bestIndex)
               \<and> nextMove nullMove moves scores index
                   = (moves ! bestIndex, swap_at bestIndex index moves,
                      swap_at bestIndex index scores)
               \<and> swap_at bestIndex index moves ! index = moves ! bestIndex
               \<and> swap_at bestIndex index scores ! index = scores ! bestIndex)"
  proof
    assume idx: "index < length moves"
    obtain m moves' scores' where res: "nextMove nullMove moves scores index = (m, moves', scores')"
      by (metis prod_cases3)
    from nextMove_step [OF assms idx res] obtain bi where
      bi: "index \<le> bi" "bi < length moves"
        "\<forall>k. index \<le> k \<and> k < length moves \<longrightarrow> scores ! k \<le> scores ! bi"
        "moves' = swap_at bi index moves" "scores' = swap_at bi index scores" "m = moves ! bi"
      by blast
    have "swap_at bi index moves ! index = moves ! bi" "swap_at bi index scores ! index = scores ! bi"
      using bi idx assms by (simp_all add: swap_at_nth)
    with bi res show "\<exists>bestIndex. index \<le> bestIndex \<and> bestIndex < length moves
               \<and> (\<forall>k. index \<le> k \<and> k < length moves \<longrightarrow> scores ! k \<le> scores ! bestIndex)
               \<and> nextMove nullMove moves scores index
                   = (moves ! bestIndex, swap_at bestIndex index moves,
                      swap_at bestIndex index scores)
               \<and> swap_at bestIndex index moves ! index = moves ! bestIndex
               \<and> swap_at bestIndex index scores ! index = scores ! bestIndex"
      by (intro exI [of _ bi]) simp
  qed
  have C: "nullMove \<notin> set moves \<longrightarrow>
            (fst (nextMove nullMove moves scores index) = nullMove \<longleftrightarrow> index \<ge> length moves)"
  proof
    assume nn: "nullMove \<notin> set moves"
    show "fst (nextMove nullMove moves scores index) = nullMove \<longleftrightarrow> index \<ge> length moves"
    proof (cases "index \<ge> length moves")
      case True
      then show ?thesis by (simp add: nextMove_null)
    next
      case False
      with B obtain bi where "bi < length moves"
        "fst (nextMove nullMove moves scores index) = moves ! bi"
        by auto
      with nn False show ?thesis by (metis nth_mem)
    qed
  qed
  from nextMove_calls_props [OF assms, of nullMove 0 "length moves"] A B C
  show ?thesis by simp
qed

theorem nextMove_partial_selection_sort_witness:
  "length [10, 30, 20 :: int] = length [3, 1, 2 :: nat]
   \<and> (0::nat) \<notin> set [3, 1, 2]
   \<and> fst (nextMove 0 [3, 1, 2] [10, 30, 20] 0) \<noteq> 0
   \<and> fst (nextMove 0 [3, 1, 2] [10, 30, 20] 3) = 0
   \<and> sorted_wrt (\<lambda>a b. a \<ge> b)
        (map snd (nextMove_calls 0 [3, 1, 2] [10, 30, 20] 0 (length [3, 1, 2 :: nat])))
   \<and> mset (nextMove_calls 0 [3, 1, 2] [10, 30, 20] 0 (length [3, 1, 2 :: nat]))
       = mset (zip [3, 1, 2] [10, 30, 20])"
proof -
  have h: "length [10, 30, 20 :: int] = length [3, 1, 2 :: nat]" by simp
  have nn: "(0::nat) \<notin> set [3, 1, 2]" by simp
  note t = nextMove_partial_selection_sort [OF h, of 0 0]
  note t3 = nextMove_partial_selection_sort [OF h, of 3 0]
  from t have "(0::nat) \<notin> set [3, 1, 2] \<longrightarrow>
      (fst (nextMove 0 [3, 1, 2] [10, 30, 20] 0) = 0 \<longleftrightarrow> 0 \<ge> length [3, 1, 2 :: nat])"
    by blast
  then have first: "fst (nextMove 0 [3, 1, 2] [10, 30, 20] 0) \<noteq> 0" by simp
  from t3 have "(0::nat) \<notin> set [3, 1, 2] \<longrightarrow>
      (fst (nextMove 0 [3, 1, 2] [10, 30, 20] 3) = 0 \<longleftrightarrow> 3 \<ge> length [3, 1, 2 :: nat])"
    by blast
  then have last: "fst (nextMove 0 [3, 1, 2] [10, 30, 20] 3) = 0" by simp
  from t have "sorted_wrt (\<lambda>a b. a \<ge> b)
        (map snd (nextMove_calls 0 [3, 1, 2] [10, 30, 20] 0 (length [3, 1, 2 :: nat])))"
    and "mset (nextMove_calls 0 [3, 1, 2] [10, 30, 20] 0 (length [3, 1, 2 :: nat]))
       = mset (zip [3, 1, 2] [10, 30, 20])"
    by blast+
  with h nn first last show ?thesis by (intro conjI)
qed

section \<open>Draws, the null move and the table probe\<close>

text \<open>
  C5.  On a position that the board reports as drawn, with \<open>alpha < beta\<close>, PVS at
  depth at least 1 returns 0 clamped into the window (beta if \<open>0 \<ge> beta\<close>, 0 if
  \<open>alpha < 0 < beta\<close>, else alpha), whatever fuel it has, and changes nothing.
\<close>

theorem PVS_draw_clamp:
  assumes "depth \<ge> 1" and "isDraw (brd E) b" and "alpha < beta"
  shows "PVS E (Suc fuel) st b depth alpha beta pvLine
           = Some (max alpha (min 0 beta), b, pvLine, st)
       \<and> max alpha (min 0 beta) = (if 0 \<ge> beta then beta else if alpha < 0 then 0 else alpha)"
  using assms by (simp add: PVS_body_def)

theorem PVS_draw_clamp_witness:
  "(1::int) \<ge> 1 \<and> isDraw (brd exEnv) 9 \<and> (-50::int) < 50
   \<and> PVS exEnv (Suc 0) exState 9 1 (-50) 50 [] = Some (0, 9, [], exState)"
  using PVS_draw_clamp [of 1 exEnv 9 "-50" 50 0 exState "[]"]
  by (simp add: exEnv_def exBoard_def)

text \<open>
  C6.  Take a node of PVS that comes to the null-move test: the depth is at least 3,
  the position is not drawn and the probe of the table gave no cutoff (it may have
  raised \<open>alpha\<close>).  When the null-move conditions hold there (not a PV node, not in
  check, \<open>nullMoveCount < 2\<close>, \<open>staticEval \<ge> beta\<close>, non-pawn material), PVS searches the
  position after the null move, with \<open>nullMoveCount\<close> and \<open>ply\<close> one higher and the
  window \<open>[-beta, -alpha]\<close>, at the depth \<open>depth - 1 - R\<close>, where
  \<open>R = min(depth - 2, base + (staticEval - beta) / PAWN_VALUE)\<close> and \<open>base\<close> is 4, 3 or
  2: PVS has no result unless that search has one, and PVS returns \<open>beta\<close>, with the
  null move taken back, when the negated result is at least \<open>beta\<close>.  That depth is at
  least 1.  The quotient is the one of C++, which on a dividend that is not negative
  and a positive PAWN_VALUE is \<open>div\<close>.
\<close>

theorem nullMove_child_depth:
  fixes E :: "('b, 't, 'g) Env" and b :: 'b and depth beta :: int
  defines "color \<equiv> getPlayerToMove (brd E) b"
    and "staticEval \<equiv> (if getPlayerToMove (brd E) b = WHITE then evaluate (brd E) b
                         else - evaluate (brd E) b)"
  defines "R \<equiv> min (depth - 2)
                 ((if depth \<ge> 11 then 4 else if depth \<ge> 6 then 3 else 2)
                  + (staticEval - beta) div PAWN_VALUE (cst E))"
  assumes deep: "depth \<ge> 3" and nd: "\<not> isDraw (brd E) b"
    and probe: "probeTT E (PVS E fuel) (count hashProbes_update st) b (NULL_MOVE (cst E)) depth
                  alpha beta pvLine = Some (- INFTY (cst E), hashed, alpha1, pvLine1, st1)"
    and nonPV: "beta - alpha1 = 1"
    and nochk: "\<not> isInCheck (brd E) b color"
    and cnt: "nullMoveCount (searchParams st1) < 2"
    and good: "staticEval \<ge> beta"
    and mat: "getNonPawnMaterial (brd E) b color \<noteq> 0"
    and pawn: "PAWN_VALUE (cst E) > 0"
  shows "(PVS E fuel (incPly (incNullMoveCount st1)) (doNullMove (brd E) b) (depth - 1 - R)
            (- beta) (- alpha1) [] = None \<longrightarrow>
          PVS E (Suc fuel) st b depth alpha beta pvLine = None)
       \<and> (\<forall>v b' line' st'.
            PVS E fuel (incPly (incNullMoveCount st1)) (doNullMove (brd E) b) (depth - 1 - R)
              (- beta) (- alpha1) [] = Some (v, b', line', st')
            \<and> - v \<ge> beta \<longrightarrow>
            PVS E (Suc fuel) st b depth alpha beta pvLine
              = Some (beta, doNullMove (brd E) b', pvLine1, decNullMoveCount (decPly st')))
       \<and> depth - 1 - R \<ge> 1
       \<and> nullMoveReduction (cst E) depth staticEval beta = R
       \<and> pvs_nullMove E pvs st1 b color depth alpha1 beta False False staticEval line
           = (case pvs (incPly (incNullMoveCount st1)) (doNullMove (brd E) b) (depth - 1 - R)
                    (- beta) (- alpha1) line of
                None \<Rightarrow> None
              | Some (v, b', line', st') \<Rightarrow>
                  Some (- v \<ge> beta, doNullMove (brd E) b', line', decNullMoveCount (decPly st')))"
proof -
  have quot: "cdiv (staticEval - beta) (PAWN_VALUE (cst E))
              = (staticEval - beta) div PAWN_VALUE (cst E)"
    using good pawn by (simp add: cdiv_def sgn_if)
  have red: "nullMoveReduction (cst E) depth staticEval beta = R"
    by (simp add: nullMoveReduction_def Let_def quot R_def)
  have low: "depth - 1 - R \<ge> 1"
    by (simp add: R_def)
  have applies: "nullMoveApplies E st1 b color depth False False staticEval beta"
    using deep cnt good mat by (simp add: nullMoveApplies_def)
  have step: "pvs_nullMove E pvs st1 b color depth alpha1 beta False False staticEval line
           = (case pvs (incPly (incNullMoveCount st1)) (doNullMove (brd E) b) (depth - 1 - R)
                    (- beta) (- alpha1) line of
                None \<Rightarrow> None
              | Some (v, b', line', st') \<Rightarrow>
                  Some (- v \<ge> beta, doNullMove (brd E) b', line', decNullMoveCount (decPly st')))"
    for pvs line
    using applies by (auto simp: pvs_nullMove_def Let_def red split: option.splits)
  from deep have pos: "\<not> depth \<le> 0" by simp
  note step' = step [of "PVS E fuel" "[]", unfolded color_def staticEval_def]
  note nochk' = nochk [unfolded color_def]
  have c1: "PVS E fuel (incPly (incNullMoveCount st1)) (doNullMove (brd E) b) (depth - 1 - R)
            (- beta) (- alpha1) [] = None \<longrightarrow>
          PVS E (Suc fuel) st b depth alpha beta pvLine = None"
  proof
    assume "PVS E fuel (incPly (incNullMoveCount st1)) (doNullMove (brd E) b) (depth - 1 - R)
            (- beta) (- alpha1) [] = None"
    then show "PVS E (Suc fuel) st b depth alpha beta pvLine = None"
      using pos nd nonPV nochk'
      by (simp add: PVS_body_def Let_def probe step' split del: if_split)
  qed
  have c2: "\<forall>v b' line' st'.
            PVS E fuel (incPly (incNullMoveCount st1)) (doNullMove (brd E) b) (depth - 1 - R)
              (- beta) (- alpha1) [] = Some (v, b', line', st')
            \<and> - v \<ge> beta \<longrightarrow>
            PVS E (Suc fuel) st b depth alpha beta pvLine
              = Some (beta, doNullMove (brd E) b', pvLine1, decNullMoveCount (decPly st'))"
  proof (intro allI impI)
    fix v b' line' st'
    assume "PVS E fuel (incPly (incNullMoveCount st1)) (doNullMove (brd E) b) (depth - 1 - R)
              (- beta) (- alpha1) [] = Some (v, b', line', st')
            \<and> - v \<ge> beta"
    then show "PVS E (Suc fuel) st b depth alpha beta pvLine
              = Some (beta, doNullMove (brd E) b', pvLine1, decNullMoveCount (decPly st'))"
      using pos nd nonPV nochk'
      by (simp add: PVS_body_def Let_def probe step' split del: if_split)
  qed
  from c1 c2 low red step show ?thesis by (intro conjI)
qed


text \<open>
  The witness: position 2 at depth 20 with the window \<open>[749, 750]\<close> and a static
  evaluation of 1000, so that \<open>R = min(18, 4 + 250 / 100) = 6\<close> and the null-move
  search is made at depth 13, on position 6.  The table holds an ALL_NODE entry for
  position 6 with the score -900: stored with depth 13 it cuts that search off, the
  null move fails high and PVS returns 750; stored with depth 12 it does not, and PVS
  returns 749.
\<close>

theorem nullMove_child_depth_witness:
  "(20::int) \<ge> 3 \<and> \<not> isDraw (brd exNullEnv) 2
   \<and> \<not> isInCheck (brd exNullEnv) 2 (getPlayerToMove (brd exNullEnv) 2)
   \<and> getNonPawnMaterial (brd exNullEnv) 2 (getPlayerToMove (brd exNullEnv) 2) \<noteq> 0
   \<and> PAWN_VALUE (cst exNullEnv) > 0
   \<and> doNullMove (brd exNullEnv) 2 = 6
   \<and> nullMoveReduction (cst exNullEnv) 20 1000 750 = 6
   \<and> map_option fst
       (PVS exNullEnv 2
          (incPly (incNullMoveCount (count hashProbes_update
             (exState\<lparr>transpositionTable :=
                [(6, \<lparr>entry_m = 0, entry_score = - 900, entry_depth = 13,
                      entry_nodeType = ALL_NODE\<rparr>)]\<rparr>))))
          6 13 (- 750) (- 749) [])
       = Some (- 750)
   \<and> map_option fst
       (PVS exNullEnv 3
          (exState\<lparr>transpositionTable :=
             [(6, \<lparr>entry_m = 0, entry_score = - 900, entry_depth = 13,
                   entry_nodeType = ALL_NODE\<rparr>)]\<rparr>)
          2 20 749 750 [])
       = Some 750
   \<and> map_option fst
       (PVS exNullEnv 3
          (exState\<lparr>transpositionTable :=
             [(6, \<lparr>entry_m = 0, entry_score = - 900, entry_depth = 12,
                   entry_nodeType = ALL_NODE\<rparr>)]\<rparr>)
          2 20 749 750 [])
       = Some 749"
proof -
  let ?st = "exState\<lparr>transpositionTable :=
                [(6, \<lparr>entry_m = 0, entry_score = - 900, entry_depth = 13,
                      entry_nodeType = ALL_NODE\<rparr>)]\<rparr>"
  let ?st1 = "count hashProbes_update ?st"
  have h1: "(20::int) \<ge> 3" by simp
  have h2: "\<not> isDraw (brd exNullEnv) 2" by code_simp
  have h3: "probeTT exNullEnv (PVS exNullEnv 2) ?st1 2 (NULL_MOVE (cst exNullEnv)) 20 749 750 []
            = Some (- INFTY (cst exNullEnv), NULL_MOVE (cst exNullEnv), 749, [], ?st1)"
    by (simp add: probeTT_def exNullEnv_def exEnv_def exHash_def count_def)
  have h4: "(750::int) - 749 = 1" by simp
  have h5: "\<not> isInCheck (brd exNullEnv) 2 (getPlayerToMove (brd exNullEnv) 2)" by code_simp
  have h6: "nullMoveCount (searchParams ?st1) < 2" by code_simp
  have se: "(if getPlayerToMove (brd exNullEnv) 2 = WHITE then evaluate (brd exNullEnv) 2
             else - evaluate (brd exNullEnv) 2) = 1000"
    by code_simp
  have h7: "(if getPlayerToMove (brd exNullEnv) 2 = WHITE then evaluate (brd exNullEnv) 2
             else - evaluate (brd exNullEnv) 2) \<ge> 750"
    by code_simp
  have h8: "getNonPawnMaterial (brd exNullEnv) 2 (getPlayerToMove (brd exNullEnv) 2) \<noteq> 0"
    by code_simp
  have h9: "PAWN_VALUE (cst exNullEnv) > 0" by code_simp
  have pv: "PAWN_VALUE (cst exNullEnv) = 100" by code_simp
  have nm: "doNullMove (brd exNullEnv) 2 = 6" and nm': "doNullMove (brd exNullEnv) 6 = 2"
    by code_simp+
  have child: "map_option fst (PVS exNullEnv 2 (incPly (incNullMoveCount ?st1)) 6 13
                 (- 750) (- 749) []) = Some (- 750)"
    by code_simp
  then obtain b' line' st' where child':
    "PVS exNullEnv 2 (incPly (incNullMoveCount ?st1)) 6 13 (- 750) (- 749) []
       = Some (- 750, b', line', st')"
    by auto
  note t = nullMove_child_depth [where E = exNullEnv and fuel = 2 and st = ?st and b = 2
             and depth = 20 and alpha = 749 and beta = 750 and pvLine = "[]",
             OF h1 h2 h3 h4 h5 h6 h7 h8 h9]
  from t have red: "nullMoveReduction (cst exNullEnv) 20 1000 750 = 6"
    by (simp add: se pv)
  from t child' have "PVS exNullEnv (Suc 2) ?st 2 20 749 750 []
                      = Some (750, doNullMove (brd exNullEnv) b', [],
                              decNullMoveCount (decPly st'))"
    by (simp add: se pv nm)
  then have run: "map_option fst (PVS exNullEnv 3 ?st 2 20 749 750 []) = Some 750"
    by (simp add: numeral_3_eq_3)
  have other: "map_option fst
       (PVS exNullEnv 3
          (exState\<lparr>transpositionTable :=
             [(6, \<lparr>entry_m = 0, entry_score = - 900, entry_depth = 12,
                   entry_nodeType = ALL_NODE\<rparr>)]\<rparr>)
          2 20 749 750 [])
       = Some 749"
    by code_simp
  from h1 h2 h5 h8 h9 nm red child run other show ?thesis by (intro conjI)
qed

text \<open>
  C7.  When the probe finds an ALL_NODE entry for the position with stored depth at
  least the current depth and stored score at most alpha, probeTT returns alpha, and
  so does PVS at a node that probes the table (depth at least 1, position not
  reported drawn), for every alpha other than \<open>-INFTY\<close>.  \<open>-INFTY\<close> is the value by
  which probeTT reports that it found no cutoff, and no alpha: the root searches with
  the window \<open>[-MATE_SCORE, MATE_SCORE]\<close>, and a search with the window \<open>[alpha, beta]\<close>
  searches with \<open>[-beta, -alpha]\<close> and \<open>[-alpha - 1, -alpha]\<close> only.  When the probe finds
  a PV_NODE entry, it is the trial of the stored move as the hash move: neither the
  stored score nor the stored depth is read.
\<close>

theorem probeTT_ALL_NODE_and_PV_NODE:
  assumes "hash_get (tt E) (transpositionTable st) b = Some entry"
  shows "(entry_nodeType entry = ALL_NODE \<and> entry_depth entry \<ge> depth \<and> entry_score entry \<le> alpha
            \<longrightarrow>
            probeTT E pvs st b hashed depth alpha beta pvLine
              = Some (alpha, hashed, alpha, pvLine,
                      count hashScoreCuts_update (count hashHits_update st))
            \<and> (depth \<ge> 1 \<and> \<not> isDraw (brd E) b \<and> alpha \<noteq> - INFTY (cst E) \<longrightarrow>
                 PVS E (Suc fuel) st b depth alpha beta pvLine
                   = Some (alpha, b, pvLine,
                           count hashScoreCuts_update (count hashHits_update
                             (count hashProbes_update st)))))
       \<and> (entry_nodeType entry = PV_NODE \<longrightarrow>
            probeTT E pvs st b hashed depth alpha beta pvLine
              = probeTT_hashMove E pvs (count hashHits_update st) b (entry_m entry)
                  depth alpha beta pvLine)"
proof -
  have tt_count: "\<And>f s. transpositionTable (count f s) = transpositionTable s"
    by (simp add: count_def)
  have A: "entry_nodeType entry = ALL_NODE \<and> entry_depth entry \<ge> depth \<and> entry_score entry \<le> alpha
      \<Longrightarrow> probeTT E p s b h depth alpha beta pvLine
              = Some (alpha, h, alpha, pvLine,
                      count hashScoreCuts_update (count hashHits_update s))"
    if "transpositionTable s = transpositionTable st" for s h p
    using assms that by (simp add: probeTT_def Let_def)
  have B: "entry_nodeType entry = PV_NODE \<Longrightarrow> ?thesis"
    using assms by (simp add: probeTT_def Let_def)
  have C: "entry_nodeType entry = ALL_NODE \<and> entry_depth entry \<ge> depth \<and> entry_score entry \<le> alpha
      \<Longrightarrow> ?thesis"
    using A [of st pvs hashed]
      A [of "count hashProbes_update st" "PVS E fuel" "NULL_MOVE (cst E)"]
    by (simp add: PVS_body_def tt_count)
  show ?thesis
  proof (cases "entry_nodeType entry")
    case PV_NODE
    then show ?thesis by (rule B)
  next
    case CUT_NODE
    then show ?thesis by simp
  next
    case ALL_NODE
    then show ?thesis using C by (cases "entry_depth entry \<ge> depth \<and> entry_score entry \<le> alpha") auto
  qed
qed

text \<open>
  Two tables for the witness: one holds an ALL_NODE entry for the stalemate position 2,
  the other a PV_NODE entry for position 0.
\<close>

theorem probeTT_ALL_NODE_and_PV_NODE_witness:
  "hash_get (tt exEnv)
      (transpositionTable (exState\<lparr>transpositionTable :=
         [(2, \<lparr>entry_m = 0, entry_score = -100, entry_depth = 3, entry_nodeType = ALL_NODE\<rparr>)]\<rparr>)) 2
     = Some \<lparr>entry_m = 0, entry_score = -100, entry_depth = 3, entry_nodeType = ALL_NODE\<rparr>
   \<and> PVS exEnv (Suc 0)
        (exState\<lparr>transpositionTable :=
           [(2, \<lparr>entry_m = 0, entry_score = -100, entry_depth = 3, entry_nodeType = ALL_NODE\<rparr>)]\<rparr>)
        2 1 (-50) 50 []
       = Some (-50, 2, [],
               count hashScoreCuts_update (count hashHits_update (count hashProbes_update
                 (exState\<lparr>transpositionTable :=
                    [(2, \<lparr>entry_m = 0, entry_score = -100, entry_depth = 3,
                          entry_nodeType = ALL_NODE\<rparr>)]\<rparr>))))
   \<and> hash_get (tt exEnv)
        (transpositionTable (exState\<lparr>transpositionTable :=
           [(0, \<lparr>entry_m = 1, entry_score = 7, entry_depth = 9, entry_nodeType = PV_NODE\<rparr>)]\<rparr>)) 0
       = Some \<lparr>entry_m = 1, entry_score = 7, entry_depth = 9, entry_nodeType = PV_NODE\<rparr>
   \<and> probeTT exEnv (PVS exEnv 3)
        (exState\<lparr>transpositionTable :=
           [(0, \<lparr>entry_m = 1, entry_score = 7, entry_depth = 9, entry_nodeType = PV_NODE\<rparr>)]\<rparr>)
        0 0 1 (-50) 50 []
       = probeTT_hashMove exEnv (PVS exEnv 3)
           (count hashHits_update
              (exState\<lparr>transpositionTable :=
                 [(0, \<lparr>entry_m = 1, entry_score = 7, entry_depth = 9, entry_nodeType = PV_NODE\<rparr>)]\<rparr>))
           0 1 1 (-50) 50 []"
proof -
  let ?eA = "\<lparr>entry_m = 0, entry_score = -100, entry_depth = 3, entry_nodeType = ALL_NODE\<rparr>"
  let ?eP = "\<lparr>entry_m = 1, entry_score = 7, entry_depth = 9, entry_nodeType = PV_NODE\<rparr>"
  let ?stA = "exState\<lparr>transpositionTable := [(2, ?eA)]\<rparr>"
  let ?stP = "exState\<lparr>transpositionTable := [(0, ?eP)]\<rparr>"
  have hA: "hash_get (tt exEnv) (transpositionTable ?stA) 2 = Some ?eA"
    by (simp add: exEnv_def exHash_def)
  have hP: "hash_get (tt exEnv) (transpositionTable ?stP) 0 = Some ?eP"
    by (simp add: exEnv_def exHash_def)
  have side: "(1::int) \<ge> 1 \<and> \<not> isDraw (brd exEnv) 2 \<and> (-50::int) \<noteq> - INFTY (cst exEnv)"
    by (simp add: exEnv_def exBoard_def exConstants_def)
  from probeTT_ALL_NODE_and_PV_NODE [OF hA, where depth = 1 and alpha = "-50" and beta = 50
      and fuel = 0 and pvLine = "[]"] side
  have rA: "PVS exEnv (Suc 0) ?stA 2 1 (-50) 50 []
       = Some (-50, 2, [], count hashScoreCuts_update (count hashHits_update
                 (count hashProbes_update ?stA)))"
    by simp
  from probeTT_ALL_NODE_and_PV_NODE [OF hP, where depth = 1 and alpha = "-50" and beta = 50
      and pvs = "PVS exEnv 3" and hashed = 0 and pvLine = "[]"]
  have rP: "probeTT exEnv (PVS exEnv 3) ?stP 0 0 1 (-50) 50 []
       = probeTT_hashMove exEnv (PVS exEnv 3) (count hashHits_update ?stP) 0 1 1 (-50) 50 []"
    by simp
  from hA rA hP rP show ?thesis by blast
qed

section \<open>Frames: what every call of the search leaves as it found it\<close>

lemma fr_refl: "frameRel E R \<Longrightarrow> R st st"
  by (simp add: frameRel_def)

lemma fr_trans: "frameRel E R \<Longrightarrow> R s1 s2 \<Longrightarrow> R s2 s3 \<Longrightarrow> R s1 s3"
  unfolding frameRel_def by metis

lemma fr_count: "frameRel E R \<Longrightarrow> R s0 st \<Longrightarrow> R s0 (count f st)"
  unfolding frameRel_def by metis

lemma fr_qsNode: "frameRel E R \<Longrightarrow> R s0 st \<Longrightarrow> R s0 (qsNode st)"
  by (simp add: qsNode_def fr_count)

lemma fr_qsFailHigh: "frameRel E R \<Longrightarrow> R s0 st \<Longrightarrow> R s0 (qsFailHigh j st)"
  by (simp add: qsFailHigh_def Let_def fr_count)

lemma fr_ply: "frameRel E R \<Longrightarrow> R s0 st \<Longrightarrow> R (incPly st) st' \<Longrightarrow> R s0 (decPly st')"
  unfolding frameRel_def by metis

lemma fr_null:
  "frameRel E R \<Longrightarrow> R s0 st \<Longrightarrow> R (incPly (incNullMoveCount st)) st' \<Longrightarrow>
     R s0 (decNullMoveCount (decPly st'))"
  unfolding frameRel_def by metis

lemma fr_checkTime: "frameRel E R \<Longrightarrow> R s0 st \<Longrightarrow> R s0 (checkTime E st)"
  unfolding frameRel_def by metis

lemma fr_cutoff:
  "frameRel E R \<Longrightarrow> R s0 st \<Longrightarrow> R s0 (pvs_cutoff E st b color ss depth beta m movesSearched)"
  unfolding frameRel_def by metis

lemma fr_epilogue:
  "frameRel E R \<Longrightarrow> R s0 st \<Longrightarrow>
     R s0 (pvs_epilogue E st b color ss depth prevAlpha alpha beta toHash)"
  unfolding frameRel_def by metis

text \<open>The quiescence search.\<close>

lemma qs_searchMove_frame:
  assumes F: "frameRel E R"
    and Q: "\<And>st b p a c v st'. search st b p a c = Some (v, st') \<Longrightarrow> R st st'"
    and R0: "R s0 st"
    and run: "qs_searchMove E search st b color plies alpha beta m score j = Some r"
  shows "R s0 (exitState r)"
proof (cases "doPseudoLegalMove (brd E) b m color")
  case None
  with run R0 show ?thesis by (auto simp: qs_searchMove_def)
next
  case (Some copy)
  with run obtain v st' where q: "search (qsNode st) copy (plies + 1) (- beta) (- alpha) = Some (v, st')"
    and r: "r = (if - v \<ge> beta then Return beta (qsFailHigh j st')
                 else Done (if - v > alpha then - v else alpha, - v, j + 1) st')"
    by (auto simp: qs_searchMove_def split: option.splits if_splits)
  have "R s0 st'"
    using fr_trans [OF F fr_qsNode [OF F R0] Q [OF q]] .
  with r show ?thesis by (simp add: fr_qsFailHigh [OF F])
qed

lemma qs_captures_frame:
  assumes F: "frameRel E R"
    and Q: "\<And>st b p a c v st'. qs st b p a c = Some (v, st') \<Longrightarrow> R st st'"
  shows "R s0 st \<Longrightarrow>
         qs_captures E qs st b color plies standPat alpha beta legalCaptures scores i score j = Some r
         \<Longrightarrow> R s0 (exitState r)"
proof (induction "length legalCaptures - i" arbitrary: st alpha legalCaptures scores i score j
        rule: less_induct)
  case less
  let ?r = "nextMove (NULL_MOVE (cst E)) legalCaptures scores i"
  let ?m = "fst ?r" and ?lc = "fst (snd ?r)" and ?sc = "snd (snd ?r)"
  note run = less.prems(2) [unfolded
      qs_captures.simps [of E qs st b color plies standPat alpha beta legalCaptures scores i score j]
      Let_def]
  show ?case
  proof (cases "?m = NULL_MOVE (cst E)")
    case True
    with run less.prems(1) show ?thesis by auto
  next
    case nn: False
    have res: "?r = (?m, ?lc, ?sc)" by simp
    have dec: "length ?lc - (i + 1) < length legalCaptures - i"
      using length_nextMove [OF res] nextMove_in_range [OF res nn] by simp
    show ?thesis
    proof (cases "qsDeltaPrune E b color standPat alpha ?m \<or> qsSEEPrune E b color ?m")
      case True
      with nn run have "qs_captures E qs st b color plies standPat alpha beta ?lc ?sc (i + 1) score j
                        = Some r"
        by simp
      from less.hyps [OF dec less.prems(1) this] show ?thesis .
    next
      case False
      with nn run obtain x where
        x: "qs_searchMove E qs st b color plies alpha beta ?m score j = Some x"
        by (auto split: option.splits)
      have Rx: "R s0 (exitState x)"
        by (rule qs_searchMove_frame [OF F Q less.prems(1) x])
      show ?thesis
      proof (cases x)
        case (Return v st')
        with x nn False run Rx show ?thesis by auto
      next
        case (Done vars st')
        obtain a' sc' j' where vars: "vars = (a', sc', j')" by (cases vars)
        with Done x nn False run
        have "qs_captures E qs st' b color plies standPat a' beta ?lc ?sc (i + 1) sc' j' = Some r"
          by simp
        moreover have "R s0 st'" using Rx Done by simp
        ultimately show ?thesis using less.hyps [OF dec] by blast
      qed
    qed
  qed
qed

lemma qs_promotions_frame:
  assumes F: "frameRel E R"
    and Q: "\<And>st b p a c v st'. qs st b p a c = Some (v, st') \<Longrightarrow> R st st'"
  shows "R s0 st \<Longrightarrow>
         qs_promotions E qs st b color plies alpha beta legalPromotions score j = Some r
         \<Longrightarrow> R s0 (exitState r)"
proof (induction legalPromotions arbitrary: st alpha score j)
  case Nil
  then show ?case by auto
next
  case (Cons m ms)
  show ?case
  proof (cases "getSEE (brd E) b color (getEndSq (mv E) m) < 0")
    case True
    with Cons.prems(2) have "qs_promotions E qs st b color plies alpha beta ms score j = Some r"
      by simp
    from Cons.IH [OF Cons.prems(1) this] show ?thesis .
  next
    case False
    with Cons.prems(2) obtain x where
      x: "qs_searchMove E qs st b color plies alpha beta m score j = Some x"
      by (auto split: option.splits)
    have Rx: "R s0 (exitState x)"
      by (rule qs_searchMove_frame [OF F Q Cons.prems(1) x])
    show ?thesis
    proof (cases x)
      case (Return v st')
      with x False Cons.prems(2) Rx show ?thesis by auto
    next
      case (Done vars st')
      obtain a' sc' j' where vars: "vars = (a', sc', j')" by (cases vars)
      with Done x False Cons.prems(2)
      have "qs_promotions E qs st' b color plies a' beta ms sc' j' = Some r"
        by simp
      moreover have "R s0 st'" using Rx Done by simp
      ultimately show ?thesis using Cons.IH by blast
    qed
  qed
qed

lemma qs_moves_frame:
  assumes F: "frameRel E R"
    and Q: "\<And>st b p a c v st'. search st b p a c = Some (v, st') \<Longrightarrow> R st st'"
  shows "R s0 st \<Longrightarrow>
         qs_moves E search st b color plies alpha beta legalMoves score j = Some r
         \<Longrightarrow> R s0 (exitState r)"
proof (induction legalMoves arbitrary: st alpha score j)
  case Nil
  then show ?case by auto
next
  case (Cons m ms)
  from Cons.prems(2) obtain x where
    x: "qs_searchMove E search st b color plies alpha beta m score j = Some x"
    by (auto split: option.splits)
  have Rx: "R s0 (exitState x)"
    by (rule qs_searchMove_frame [OF F Q Cons.prems(1) x])
  show ?case
  proof (cases x)
    case (Return v st')
    with x Cons.prems(2) Rx show ?thesis by auto
  next
    case (Done vars st')
    obtain a' sc' j' where vars: "vars = (a', sc', j')" by (cases vars)
    with Done x Cons.prems(2)
    have "qs_moves E search st' b color plies a' beta ms sc' j' = Some r"
      by simp
    moreover have "R s0 st'" using Rx Done by simp
    ultimately show ?thesis using Cons.IH by blast
  qed
qed

lemma checkQuiescence_body_frame:
  assumes F: "frameRel E R"
    and Q: "\<And>st b p a c v st'. qs st b p a c = Some (v, st') \<Longrightarrow> R st st'"
    and run: "checkQuiescence_body E qs st b plies alpha beta = Some (v, st')"
  shows "R st st'"
proof -
  from run obtain r where
    r: "qs_moves E qs st b (getPlayerToMove (brd E) b) plies alpha beta
          (getPseudoLegalCheckEscapes (brd E) b (getPlayerToMove (brd E) b)) (- INFTY (cst E)) 0
        = Some r"
    by (auto simp: checkQuiescence_body_def Let_def split: option.splits)
  have "R st (exitState r)"
    by (rule qs_moves_frame [OF F Q fr_refl [OF F] r])
  moreover have "st' = exitState r"
    using run r
    by (cases r) (auto simp: checkQuiescence_body_def Let_def split: if_splits)
  ultimately show ?thesis by simp
qed

lemma quiescence_body_frame:
  assumes F: "frameRel E R"
    and Q: "\<And>st b p a c v st'. qs st b p a c = Some (v, st') \<Longrightarrow> R st st'"
    and C: "\<And>st b p a c v st'. cq st b p a c = Some (v, st') \<Longrightarrow> R st st'"
    and run: "quiescence_body E qs cq st b plies alpha beta = Some (v, st')"
  shows "R st st'"
proof -
  let ?color = "getPlayerToMove (brd E) b"
  note refl = fr_refl [OF F, of st]
  show ?thesis
  proof (cases "isInCheck (brd E) b ?color")
    case True
    with run show ?thesis by (auto simp: quiescence_body_def Let_def intro: C)
  next
    case nc: False
    define sp0 where "sp0 = (if ?color = WHITE then evaluateMaterial (brd E) b
                             else - evaluateMaterial (brd E) b)"
    define sp where "sp = sp0 + (if ?color = WHITE then evaluatePositional (brd E) b
                                 else - evaluatePositional (brd E) b)"
    define a1 where "a1 = (if alpha < sp then sp else alpha)"
    define caps where "caps = getPseudoLegalCaptures (brd E) b ?color False"
    note run' = run [unfolded quiescence_body_def Let_def, folded sp0_def, folded sp_def,
        folded a1_def, folded caps_def]
    show ?thesis
    proof (cases "sp0 \<ge> beta + MAX_POS_SCORE (cst E)
                  \<or> sp0 < alpha - 2 * MAX_POS_SCORE (cst E) - QUEEN_VALUE (cst E)
                  \<or> sp \<ge> beta \<or> sp < a1 - MAX_POS_SCORE (cst E) - QUEEN_VALUE (cst E)")
      case True
      with run' nc refl show ?thesis by (auto split: if_splits)
    next
      case False
      with run' nc obtain r1 where
        r1: "qs_captures E qs st b ?color plies sp a1 beta caps
               (map (getMVVLVAScore (brd E) b ?color) caps) 0 (- INFTY (cst E)) 0 = Some r1"
        by (auto split: option.splits if_splits)
      have R1: "R st (exitState r1)"
        by (rule qs_captures_frame [OF F Q refl r1])
      show ?thesis
      proof (cases r1)
        case (Return v1 s1)
        with run' nc False r1 R1 show ?thesis by (auto split: if_splits)
      next
        case (Done vars1 s1)
        obtain a2 sc2 j2 where vars1: "vars1 = (a2, sc2, j2)" by (cases vars1)
        from run' nc False r1 Done vars1 obtain r2 where
          r2: "qs_promotions E qs s1 b ?color plies a2 beta
                 (getPseudoLegalPromotions (brd E) b ?color) sc2 j2 = Some r2"
          by (auto split: option.splits if_splits)
        have R2: "R st (exitState r2)"
          using qs_promotions_frame [OF F Q _ r2] R1 Done by simp
        show ?thesis
        proof (cases r2)
          case (Return v2 s2)
          with run' nc False r1 Done vars1 r2 R2 show ?thesis by (auto split: if_splits)
        next
          case D2: (Done vars2 s2)
          obtain a3 sc3 j3 where vars2: "vars2 = (a3, sc3, j3)" by (cases vars2)
          show ?thesis
          proof (cases "plies \<le> 0")
            case False
            with run' nc \<open>\<not> (sp0 \<ge> _ \<or> _)\<close> r1 Done vars1 r2 D2 vars2 R2 show ?thesis
              by (auto split: if_splits)
          next
            case True
            with run' nc \<open>\<not> (sp0 \<ge> _ \<or> _)\<close> r1 Done vars1 r2 D2 vars2 obtain r3 where
              r3: "qs_moves E cq s2 b ?color plies a3 beta
                     (getPseudoLegalChecks (brd E) b ?color) sc3 j3 = Some r3"
              by (auto split: option.splits if_splits)
            have R3: "R st (exitState r3)"
              using qs_moves_frame [OF F C _ r3] R2 D2 by simp
            from run' nc \<open>\<not> (sp0 \<ge> _ \<or> _)\<close> r1 Done vars1 r2 D2 vars2 True r3
            have "st' = exitState r3"
              by (cases r3) (auto split: if_splits)
            with R3 show ?thesis by simp
          qed
        qed
      qed
    qed
  qed
qed

lemma quiescence_frame:
  assumes F: "frameRel E R"
  shows "quiescence E fuel st b plies alpha beta = Some (v, st') \<Longrightarrow> R st st'"
proof (induction fuel arbitrary: st b plies alpha beta v st')
  case 0
  then show ?case by simp
next
  case (Suc fuel)
  have Q: "\<And>st b p a c v st'. quiescence E fuel st b p a c = Some (v, st') \<Longrightarrow> R st st'"
    by (rule Suc.IH)
  have C: "\<And>st b p a c v st'.
      checkQuiescence_body E (quiescence E fuel) st b p a c = Some (v, st') \<Longrightarrow> R st st'"
    by (rule checkQuiescence_body_frame [OF F Q])
  from Suc.prems show ?case
    by (simp only: quiescence.simps) (rule quiescence_body_frame [OF F Q C])
qed


text \<open>The principal variation search.\<close>

lemma probeTT_hashMove_frame:
  assumes F: "frameRel E R"
    and P: "\<And>st b d a c pv v b' pv' st'. pvs st b d a c pv = Some (v, b', pv', st') \<Longrightarrow> R st st'"
    and R0: "R s0 st"
    and run: "probeTT_hashMove E pvs st b hashed depth alpha beta pvLine
                = Some (hashScore, hashed', alpha', pvLine', st')"
  shows "R s0 st'"
proof (cases "doHashMove (brd E) b hashed (getPlayerToMove (brd E) b)")
  case None
  with run R0 show ?thesis by (auto simp: probeTT_hashMove_def)
next
  case (Some copy)
  with run obtain v c' l s1 where
    call: "pvs (incPly (count nodes_update (count hashMoveAttempts_update st)))
             copy (depth - 1) (- beta) (- alpha) [] = Some (v, c', l, s1)"
    by (auto simp: probeTT_hashMove_def split: option.splits)
  have "R s0 (decPly s1)"
    by (rule fr_ply [OF F fr_count [OF F fr_count [OF F R0]] P [OF call]])
  moreover from run Some call have "st' = decPly s1 \<or> st' = count hashMoveCuts_update (decPly s1)"
    by (auto simp: probeTT_hashMove_def Let_def split: if_splits)
  ultimately show ?thesis by (auto simp: fr_count [OF F])
qed

lemma probeTT_frame:
  assumes F: "frameRel E R"
    and P: "\<And>st b d a c pv v b' pv' st'. pvs st b d a c pv = Some (v, b', pv', st') \<Longrightarrow> R st st'"
    and R0: "R s0 st"
    and run: "probeTT E pvs st b hashed depth alpha beta pvLine
                = Some (hashScore, hashed', alpha', pvLine', st')"
  shows "R s0 st'"
proof (cases "hash_get (tt E) (transpositionTable st) b")
  case None
  with run R0 show ?thesis by (auto simp: probeTT_def)
next
  case (Some entry)
  have Rh: "R s0 (count hashHits_update st)" by (rule fr_count [OF F R0])
  show ?thesis
  proof (cases "entry_nodeType entry = ALL_NODE
              \<or> (entry_depth entry \<ge> depth \<and> entry_nodeType entry = CUT_NODE
                  \<and> entry_score entry \<ge> beta)")
    case True
    with run Some Rh show ?thesis
      by (auto simp: probeTT_def Let_def fr_count [OF F] split: if_splits)
  next
    case False
    with run Some have "probeTT_hashMove E pvs (count hashHits_update st) b (entry_m entry)
                          depth alpha beta pvLine = Some (hashScore, hashed', alpha', pvLine', st')"
      by (auto simp: probeTT_def Let_def split: if_splits)
    from probeTT_hashMove_frame [OF F P Rh this] show ?thesis .
  qed
qed

lemma pvs_nullMove_frame:
  assumes F: "frameRel E R"
    and P: "\<And>st b d a c pv v b' pv' st'. pvs st b d a c pv = Some (v, b', pv', st') \<Longrightarrow> R st st'"
    and R0: "R s0 st"
    and run: "pvs_nullMove E pvs st b color depth alpha beta isPVNode inCheck staticEval line
                = Some (cutoff, b', line', st')"
  shows "R s0 st'"
proof (cases "nullMoveApplies E st b color depth isPVNode inCheck staticEval beta")
  case False
  with run R0 show ?thesis by (auto simp: pvs_nullMove_def)
next
  case True
  with run obtain v b1 l s1 where
    call: "pvs (incPly (incNullMoveCount st)) (doNullMove (brd E) b)
             (depth - 1 - nullMoveReduction (cst E) depth staticEval beta) (- beta) (- alpha) line
           = Some (v, b1, l, s1)"
    by (auto simp: pvs_nullMove_def Let_def split: option.splits)
  have "R s0 (decNullMoveCount (decPly s1))"
    by (rule fr_null [OF F R0 P [OF call]])
  moreover from run True call have "st' = decNullMoveCount (decPly s1)"
    by (auto simp: pvs_nullMove_def Let_def split: if_splits)
  ultimately show ?thesis by simp
qed

lemma pvs_searchMove_frame:
  assumes F: "frameRel E R"
    and P: "\<And>st b d a c pv v b' pv' st'. pvs st b d a c pv = Some (v, b', pv', st') \<Longrightarrow> R st st'"
    and R0: "R s0 st"
    and run: "pvs_searchMove E pvs st copy depth reduction alpha beta movesSearched line
                = Some (score, line', st')"
  shows "R s0 st'"
proof (cases "movesSearched \<noteq> 0")
  case False
  with run obtain v c' l s1 where
    call: "pvs (incPly st) copy (depth - 1) (- beta) (- alpha) line = Some (v, c', l, s1)"
    and st': "st' = decPly s1"
    by (auto simp: pvs_searchMove_def split: option.splits)
  show ?thesis unfolding st' by (rule fr_ply [OF F R0 P [OF call]])
next
  case True
  with run obtain v c' l s1 where
    call: "pvs (incPly st) copy (depth - 1 - reduction) (- alpha - 1) (- alpha) line
             = Some (v, c', l, s1)"
    by (auto simp: pvs_searchMove_def split: option.splits)
  have R1: "R s0 (decPly s1)" by (rule fr_ply [OF F R0 P [OF call]])
  show ?thesis
  proof (cases "alpha < - v \<and> - v < beta")
    case False
    with run True call have "st' = decPly s1"
      by (auto simp: pvs_searchMove_def Let_def split: if_splits)
    with R1 show ?thesis by simp
  next
    case re: True
    with run True call obtain v2 c2 l2 s2 where
      call2: "pvs (incPly (decPly s1)) c' (depth - 1) (- beta) (- alpha) l = Some (v2, c2, l2, s2)"
      and st': "st' = decPly s2"
      by (auto simp: pvs_searchMove_def Let_def split: option.splits if_splits)
    show ?thesis unfolding st' by (rule fr_ply [OF F R1 P [OF call2]])
  qed
qed

lemma pvs_move_frame:
  assumes F: "frameRel E R"
    and P: "\<And>st b d a c pv v b' pv' st'. pvs st b d a c pv = Some (v, b', pv', st') \<Longrightarrow> R st st'"
    and R0: "R s0 st"
    and run: "pvs_move E pvs st b color ss depth prevAlpha alpha beta staticEval pvLine line toHash
                movesSearched score m = Some r"
  shows "R s0 (exitState r)"
proof -
  have R1: "R s0 (checkTime E st)" by (rule fr_checkTime [OF F R0])
  note run' = run [unfolded pvs_move_def Let_def]
  show ?thesis
  proof (cases "isStop (checkTime E st)
                \<or> futilityPrune E b color ss depth staticEval alpha m
                \<or> doPseudoLegalMove (brd E) b m color = None")
    case True
    with run' R1 show ?thesis by (auto split: if_splits)
  next
    case False
    then obtain copy where copy: "doPseudoLegalMove (brd E) b m color = Some copy" by auto
    define st2 where "st2 = count nodes_update (checkTime E st)"
    define red where "red = (if lmrApplies E st2 copy color ss depth prevAlpha alpha m movesSearched
                             then lmrReduction depth movesSearched else 0)"
    have R2: "R s0 st2" unfolding st2_def by (rule fr_count [OF F R1])
    from run' False copy obtain sc l s3 where
      sm: "pvs_searchMove E pvs st2 copy depth red alpha beta movesSearched line = Some (sc, l, s3)"
      by (auto simp: st2_def red_def split: option.splits)
    have R3: "R s0 s3" by (rule pvs_searchMove_frame [OF F P R2 sm])
    from run' False copy sm
    have "exitState r = s3 \<or> exitState r = pvs_cutoff E s3 b color ss depth beta m movesSearched"
      by (auto simp: st2_def red_def split: if_splits)
    with R3 show ?thesis by (auto simp: fr_cutoff [OF F])
  qed
qed

lemma pvs_loop_frame:
  assumes F: "frameRel E R"
    and P: "\<And>st b d a c pv v b' pv' st'. pvs st b d a c pv = Some (v, b', pv', st') \<Longrightarrow> R st st'"
  shows "R s0 st \<Longrightarrow>
         pvs_loop E pvs k st b color ss depth prevAlpha alpha beta staticEval pvLine line toHash
           movesSearched score = Some r
         \<Longrightarrow> R s0 (exitState r)"
proof (induction k arbitrary: st ss alpha pvLine line toHash movesSearched score)
  case 0
  then show ?case by simp
next
  case (Suc k)
  let ?nm = "ss_nextMove (sso E) (ss_moves ss) (searchParams st)"
  let ?m = "fst ?nm" and ?ss = "ss\<lparr>ss_moves := snd ?nm\<rparr>"
  note run = Suc.prems(2) [unfolded pvs_loop.simps Let_def]
  show ?case
  proof (cases "?m = NULL_MOVE (cst E)")
    case True
    with run Suc.prems(1) show ?thesis by auto
  next
    case False
    with run obtain x where
      x: "pvs_move E pvs st b color ?ss depth prevAlpha alpha beta staticEval pvLine line toHash
            movesSearched score ?m = Some x"
      by (auto split: option.splits)
    have Rx: "R s0 (exitState x)" by (rule pvs_move_frame [OF F P Suc.prems(1) x])
    show ?thesis
    proof (cases x)
      case (Return v s1)
      with run False x Rx show ?thesis by auto
    next
      case (Done vars s1)
      obtain a' th' sc' pv' l' ms' where vars: "vars = (a', th', sc', pv', l', ms')"
        by (cases vars)
      with run False x Done
      have "pvs_loop E pvs k s1 b color ?ss depth prevAlpha a' beta staticEval pv' l' th' ms' sc'
              = Some r"
        by simp
      moreover have "R s0 s1" using Rx Done by simp
      ultimately show ?thesis using Suc.IH by blast
    qed
  qed
qed

lemma PVS_body_frame:
  assumes F: "frameRel E R"
    and P: "\<And>st b d a c pv v b' pv' st'. pvs st b d a c pv = Some (v, b', pv', st') \<Longrightarrow> R st st'"
    and Q: "\<And>st b p a c v st'. qs st b p a c = Some (v, st') \<Longrightarrow> R st st'"
    and run: "PVS_body E pvs qs k st b depth alpha beta pvLine = Some (v, b', pvLine', st')"
  shows "R st st'"
proof -
  note refl = fr_refl [OF F, of st]
  note run' = run [unfolded PVS_body_def Let_def]
  show ?thesis
  proof (cases "depth \<le> 0")
    case True
    with run' show ?thesis by (auto split: option.splits intro: Q)
  next
    case pos: False
    show ?thesis
    proof (cases "isDraw (brd E) b")
      case True
      with run' pos refl show ?thesis by auto
    next
      case nd: False
      let ?color = "getPlayerToMove (brd E) b"
      from run' pos nd obtain hs hashed a1 pv1 s1 where
        probe: "probeTT E pvs (count hashProbes_update st) b (NULL_MOVE (cst E)) depth alpha beta
                  pvLine = Some (hs, hashed, a1, pv1, s1)"
        by (auto split: option.splits)
      have R1: "R st s1"
        by (rule probeTT_frame [OF F P fr_count [OF F refl] probe])
      show ?thesis
      proof (cases "hs \<noteq> - INFTY (cst E)")
        case True
        with run' pos nd probe R1 show ?thesis by auto
      next
        case nohit: False
        define isPV where "isPV = (beta - a1 \<noteq> 1)"
        define inCheck where "inCheck = isInCheck (brd E) b ?color"
        define staticEval where "staticEval = (if ?color = WHITE then evaluate (brd E) b
                                               else - evaluate (brd E) b)"
        from run' pos nd probe nohit obtain cut b2 l2 s2 where
          nm: "pvs_nullMove E pvs s1 b ?color depth a1 beta isPV inCheck staticEval []
                 = Some (cut, b2, l2, s2)"
          by (auto simp: isPV_def inCheck_def staticEval_def split: option.splits)
        have R2: "R st s2" by (rule pvs_nullMove_frame [OF F P R1 nm])
        show ?thesis
        proof (cases "cut \<or> reverseFutility E b2 ?color depth isPV inCheck staticEval beta")
          case True
          with run' pos nd probe nohit nm R2 show ?thesis
            by (auto simp: isPV_def inCheck_def staticEval_def split: if_splits)
        next
          case False
          define ss where "ss = \<lparr>ss_isPVNode = isPV, ss_isInCheck = inCheck,
                               ss_moves = generateMoves (sso E) b2 ?color depth isPV inCheck
                                            (searchParams s2) hashed\<rparr>"
          from run' pos nd probe nohit nm False obtain r where
            loop: "pvs_loop E pvs k s2 b2 ?color ss depth alpha a1 beta staticEval pv1 l2
                     (NULL_MOVE (cst E)) (if hashed = NULL_MOVE (cst E) then 0 else 1)
                     (- INFTY (cst E)) = Some r"
            by (auto simp: isPV_def inCheck_def staticEval_def ss_def split: option.splits)
          have R3: "R st (exitState r)" by (rule pvs_loop_frame [OF F P R2 loop])
          show ?thesis
          proof (cases r)
            case (Return res s3)
            with run' pos nd probe nohit nm False loop R3 show ?thesis
              by (cases res) (auto simp: isPV_def inCheck_def staticEval_def ss_def)
          next
            case (Done vars s3)
            obtain a3 th sc pv3 ss3 where vars: "vars = (a3, th, sc, pv3, ss3)" by (cases vars)
            from run' pos nd probe nohit nm False loop Done vars
            have "st' = s3 \<or> st' = pvs_epilogue E s3 b2 ?color ss3 depth alpha a3 beta th"
              by (auto simp: isPV_def inCheck_def staticEval_def ss_def split: if_splits)
            with R3 Done show ?thesis by (auto simp: fr_epilogue [OF F])
          qed
        qed
      qed
    qed
  qed
qed

lemma PVS_frame:
  assumes F: "frameRel E R"
  shows "PVS E fuel st b depth alpha beta pvLine = Some (v, b', pvLine', st') \<Longrightarrow> R st st'"
proof (induction fuel arbitrary: st b depth alpha beta pvLine v b' pvLine' st')
  case 0
  then show ?case by simp
next
  case (Suc fuel)
  have P: "\<And>st b d a c pv v b' pv' st'.
      PVS E fuel st b d a c pv = Some (v, b', pv', st') \<Longrightarrow> R st st'"
    by (rule Suc.IH)
  have Q: "\<And>st b p a c v st'. quiescence E fuel st b p a c = Some (v, st') \<Longrightarrow> R st st'"
    by (rule quiescence_frame [OF F])
  from Suc.prems show ?case
    by (simp only: PVS.simps) (rule PVS_body_frame [OF F P Q])
qed

section \<open>Three frames\<close>

lemma count_fields [simp]:
  "searchParams (count f st) = searchParams st"
  "isStop (count f st) = isStop st"
  "transpositionTable (count f st) = transpositionTable st"
  "clockReads (count f st) = clockReads st"
  by (simp_all add: count_def)

lemma ply_fields [simp]:
  "ply (searchParams (incPly st)) = ply (searchParams st) + 1"
  "ply (searchParams (decPly st)) = ply (searchParams st) - 1"
  "nullMoveCount (searchParams (incPly st)) = nullMoveCount (searchParams st)"
  "nullMoveCount (searchParams (decPly st)) = nullMoveCount (searchParams st)"
  "timeLimit (searchParams (incPly st)) = timeLimit (searchParams st)"
  "timeLimit (searchParams (decPly st)) = timeLimit (searchParams st)"
  "killers (searchParams (incPly st)) = killers (searchParams st)"
  "killers (searchParams (decPly st)) = killers (searchParams st)"
  "isStop (incPly st) = isStop st"
  "isStop (decPly st) = isStop st"
  by (simp_all add: incPly_def decPly_def)

lemma nullMoveCount_fields [simp]:
  "ply (searchParams (incNullMoveCount st)) = ply (searchParams st)"
  "ply (searchParams (decNullMoveCount st)) = ply (searchParams st)"
  "nullMoveCount (searchParams (incNullMoveCount st)) = nullMoveCount (searchParams st) + 1"
  "nullMoveCount (searchParams (decNullMoveCount st)) = nullMoveCount (searchParams st) - 1"
  "timeLimit (searchParams (incNullMoveCount st)) = timeLimit (searchParams st)"
  "timeLimit (searchParams (decNullMoveCount st)) = timeLimit (searchParams st)"
  "killers (searchParams (incNullMoveCount st)) = killers (searchParams st)"
  "killers (searchParams (decNullMoveCount st)) = killers (searchParams st)"
  "isStop (incNullMoveCount st) = isStop st"
  "isStop (decNullMoveCount st) = isStop st"
  by (simp_all add: incNullMoveCount_def decNullMoveCount_def)

lemma checkTime_fields [simp]:
  "searchParams (checkTime E st) = searchParams st"
  "transpositionTable (checkTime E st) = transpositionTable st"
  "isStop (checkTime E st)
     = (isStop st \<or> getTimeElapsed E (clockReads st) > timeLimit (searchParams st))"
  by (auto simp: checkTime_def Let_def)

lemma recordKiller_fields [simp]:
  "ply (recordKiller m P) = ply P"
  "nullMoveCount (recordKiller m P) = nullMoveCount P"
  "timeLimit (recordKiller m P) = timeLimit P"
  "rootMoveNumber (recordKiller m P) = rootMoveNumber P"
  "historyTable (recordKiller m P) = historyTable P"
  by (simp_all add: recordKiller_def)

lemma addHistory_fields [simp]:
  "ply (addHistory E b color ss depth m P) = ply P"
  "nullMoveCount (addHistory E b color ss depth m P) = nullMoveCount P"
  "timeLimit (addHistory E b color ss depth m P) = timeLimit P"
  "rootMoveNumber (addHistory E b color ss depth m P) = rootMoveNumber P"
  "killers (addHistory E b color ss depth m P) = killers P"
  by (simp_all add: addHistory_def Let_def)

lemma pvs_cutoff_fields [simp]:
  "ply (searchParams (pvs_cutoff E st b color ss depth beta m movesSearched)) = ply (searchParams st)"
  "nullMoveCount (searchParams (pvs_cutoff E st b color ss depth beta m movesSearched))
     = nullMoveCount (searchParams st)"
  "timeLimit (searchParams (pvs_cutoff E st b color ss depth beta m movesSearched))
     = timeLimit (searchParams st)"
  "isStop (pvs_cutoff E st b color ss depth beta m movesSearched) = isStop st"
  "killers (searchParams (pvs_cutoff E st b color ss depth beta m movesSearched))
     = (if isCapture (mv E) m then killers (searchParams st)
        else killers (recordKiller m (searchParams st)))"
  by (simp_all add: pvs_cutoff_def Let_def)

lemma pvs_epilogue_fields [simp]:
  "ply (searchParams (pvs_epilogue E st b color ss depth prevAlpha alpha beta toHash))
     = ply (searchParams st)"
  "nullMoveCount (searchParams (pvs_epilogue E st b color ss depth prevAlpha alpha beta toHash))
     = nullMoveCount (searchParams st)"
  "timeLimit (searchParams (pvs_epilogue E st b color ss depth prevAlpha alpha beta toHash))
     = timeLimit (searchParams st)"
  "isStop (pvs_epilogue E st b color ss depth prevAlpha alpha beta toHash) = isStop st"
  "killers (searchParams (pvs_epilogue E st b color ss depth prevAlpha alpha beta toHash))
     = killers (searchParams st)"
  by (simp_all add: pvs_epilogue_def Let_def)

text \<open>\<open>ply\<close> and \<open>nullMoveCount\<close> are the same before and after.\<close>

lemma frameRel_counters:
  "frameRel E (\<lambda>st st'. ply (searchParams st') = ply (searchParams st)
                       \<and> nullMoveCount (searchParams st') = nullMoveCount (searchParams st))"
  by (simp add: frameRel_def)

text \<open>The killer slots stay distinct.\<close>

lemma recordKiller_distinct:
  "killersDistinct C P \<Longrightarrow> killersDistinct C (recordKiller m P)"
  by (auto simp: killersDistinct_def recordKiller_def)

lemma killersDistinct_cong:
  "killers P' = killers P \<Longrightarrow> killersDistinct C P' = killersDistinct C P"
  by (simp add: killersDistinct_def)

lemma frameRel_killers:
  "frameRel E (\<lambda>st st'. killersDistinct (cst E) (searchParams st)
                         \<longrightarrow> killersDistinct (cst E) (searchParams st'))"
  unfolding frameRel_def
proof (intro conjI allI impI, goal_cases)
  case (7 st b color ss depth beta m movesSearched)
  then show ?case
    using recordKiller_distinct [of "cst E" "searchParams st" m]
    by (cases "isCapture (mv E) m") (simp_all add: killersDistinct_def)
qed (simp_all add: killersDistinct_def)

text \<open>The time limit stays, and the stop flag is raised only by a clock reading above it.\<close>

lemma frameRel_stop:
  "frameRel E (\<lambda>st st'. timeLimit (searchParams st') = timeLimit (searchParams st)
                         \<and> (isStop st' \<longrightarrow> isStop st \<or> \<not> neverTimesOut E st))"
  unfolding frameRel_def neverTimesOut_def
  by (auto simp: not_le)

section \<open>The count of null moves\<close>

text \<open>
  Two searches that agree on every state with \<open>nullMoveCount \<le> 2\<close>, the second of which
  restores \<open>ply\<close> and \<open>nullMoveCount\<close>, give the same result in every function of PVS
  that calls them from such a state.
\<close>

lemma probeTT_hashMove_agree:
  assumes A: "\<And>st b d a c pv. nullMoveCount (searchParams st) \<le> 2 \<Longrightarrow>
                pvsA st b d a c pv = pvsB st b d a c pv"
    and I: "nullMoveCount (searchParams st) \<le> 2"
  shows "probeTT_hashMove E pvsA st b hashed depth alpha beta pvLine
         = probeTT_hashMove E pvsB st b hashed depth alpha beta pvLine"
  using I by (simp add: probeTT_hashMove_def A cong: option.case_cong)

lemma probeTT_agree:
  assumes A: "\<And>st b d a c pv. nullMoveCount (searchParams st) \<le> 2 \<Longrightarrow>
                pvsA st b d a c pv = pvsB st b d a c pv"
    and I: "nullMoveCount (searchParams st) \<le> 2"
  shows "probeTT E pvsA st b hashed depth alpha beta pvLine
         = probeTT E pvsB st b hashed depth alpha beta pvLine"
proof -
  have hm: "probeTT_hashMove E pvsA (count hashHits_update st) b h depth alpha beta pvLine
            = probeTT_hashMove E pvsB (count hashHits_update st) b h depth alpha beta pvLine" for h
    by (rule probeTT_hashMove_agree [OF A]) (use I in simp_all)
  show ?thesis
    by (simp add: probeTT_def Let_def hm cong: option.case_cong if_cong)
qed

lemma pvs_nullMove_agree:
  assumes A: "\<And>st b d a c pv. nullMoveCount (searchParams st) \<le> 2 \<Longrightarrow>
                pvsA st b d a c pv = pvsB st b d a c pv"
  shows "pvs_nullMove E pvsA st b color depth alpha beta isPVNode inCheck staticEval line
         = pvs_nullMove E pvsB st b color depth alpha beta isPVNode inCheck staticEval line"
proof (cases "nullMoveApplies E st b color depth isPVNode inCheck staticEval beta")
  case False
  then show ?thesis by (simp add: pvs_nullMove_def)
next
  case True
  then have "nullMoveCount (searchParams (incPly (incNullMoveCount st))) \<le> 2"
    by (simp add: nullMoveApplies_def)
  then show ?thesis by (simp add: pvs_nullMove_def A cong: option.case_cong)
qed

lemma pvs_searchMove_agree:
  assumes A: "\<And>st b d a c pv. nullMoveCount (searchParams st) \<le> 2 \<Longrightarrow>
                pvsA st b d a c pv = pvsB st b d a c pv"
    and P: "\<And>st b d a c pv v b' pv' st'. pvsB st b d a c pv = Some (v, b', pv', st') \<Longrightarrow>
              ply (searchParams st') = ply (searchParams st)
              \<and> nullMoveCount (searchParams st') = nullMoveCount (searchParams st)"
    and I: "nullMoveCount (searchParams st) \<le> 2"
  shows "pvs_searchMove E pvsA st copy depth reduction alpha beta movesSearched line
         = pvs_searchMove E pvsB st copy depth reduction alpha beta movesSearched line"
proof -
  have first: "pvsA (incPly st) c d a e l = pvsB (incPly st) c d a e l" for c d a e l
    using I by (simp add: A)
  have second: "pvsA (incPly (decPly s1)) c d a e l = pvsB (incPly (decPly s1)) c d a e l"
    if "pvsB (incPly st) c0 d0 a0 e0 l0 = Some (v, c1, l1, s1)" for s1 c d a e l c0 d0 a0 e0 l0 v c1 l1
    using P [OF that] I by (simp add: A)
  show ?thesis
    unfolding pvs_searchMove_def first
    by (auto simp: Let_def second split: option.splits)
qed

lemma pvs_move_agree:
  assumes A: "\<And>st b d a c pv. nullMoveCount (searchParams st) \<le> 2 \<Longrightarrow>
                pvsA st b d a c pv = pvsB st b d a c pv"
    and P: "\<And>st b d a c pv v b' pv' st'. pvsB st b d a c pv = Some (v, b', pv', st') \<Longrightarrow>
              ply (searchParams st') = ply (searchParams st)
              \<and> nullMoveCount (searchParams st') = nullMoveCount (searchParams st)"
    and I: "nullMoveCount (searchParams st) \<le> 2"
  shows "pvs_move E pvsA st b color ss depth prevAlpha alpha beta staticEval pvLine line toHash
           movesSearched score m
         = pvs_move E pvsB st b color ss depth prevAlpha alpha beta staticEval pvLine line toHash
             movesSearched score m"
proof -
  have "pvs_searchMove E pvsA (count nodes_update (checkTime E st)) c d r a e ms l
        = pvs_searchMove E pvsB (count nodes_update (checkTime E st)) c d r a e ms l"
    for c d r a e ms l
    by (rule pvs_searchMove_agree [OF A P]) (use I in simp_all)
  then show ?thesis by (simp add: pvs_move_def Let_def cong: option.case_cong if_cong)
qed

lemma pvs_loop_agree:
  assumes A: "\<And>st b d a c pv. nullMoveCount (searchParams st) \<le> 2 \<Longrightarrow>
                pvsA st b d a c pv = pvsB st b d a c pv"
    and P: "\<And>st b d a c pv v b' pv' st'. pvsB st b d a c pv = Some (v, b', pv', st') \<Longrightarrow>
              ply (searchParams st') = ply (searchParams st)
              \<and> nullMoveCount (searchParams st') = nullMoveCount (searchParams st)"
  shows "nullMoveCount (searchParams st) \<le> 2 \<Longrightarrow>
         pvs_loop E pvsA k st b color ss depth prevAlpha alpha beta staticEval pvLine line toHash
           movesSearched score
         = pvs_loop E pvsB k st b color ss depth prevAlpha alpha beta staticEval pvLine line toHash
             movesSearched score"
proof (induction k arbitrary: st ss alpha pvLine line toHash movesSearched score)
  case 0
  show ?case by simp
next
  case (Suc k)
  let ?nm = "ss_nextMove (sso E) (ss_moves ss) (searchParams st)"
  let ?m = "fst ?nm" and ?ss = "ss\<lparr>ss_moves := snd ?nm\<rparr>"
  let ?x2 = "pvs_move E pvsB st b color ?ss depth prevAlpha alpha beta staticEval pvLine line
               toHash movesSearched score ?m"
  have mv: "pvs_move E pvsA st b color ?ss depth prevAlpha alpha beta staticEval pvLine line toHash
              movesSearched score ?m = ?x2"
    by (rule pvs_move_agree [OF A P Suc.prems])
  show ?case
  proof (cases ?x2)
    case None
    with mv show ?thesis by (simp add: Let_def)
  next
    case (Some x)
    show ?thesis
    proof (cases x)
      case (Return r s1)
      with mv Some show ?thesis by (simp add: Let_def)
    next
      case (Done vars s1)
      have "ply (searchParams (exitState x)) = ply (searchParams st)
            \<and> nullMoveCount (searchParams (exitState x)) = nullMoveCount (searchParams st)"
        by (rule pvs_move_frame [OF frameRel_counters _ _ Some]) (use P in auto)
      with Done Suc.prems have "nullMoveCount (searchParams s1) \<le> 2" by simp
      from Suc.IH [OF this] mv Some Done show ?thesis
        by (simp add: Let_def split: prod.splits)
    qed
  qed
qed

lemma PVS_body_agree:
  assumes A: "\<And>st b d a c pv. nullMoveCount (searchParams st) \<le> 2 \<Longrightarrow>
                pvsA st b d a c pv = pvsB st b d a c pv"
    and P: "\<And>st b d a c pv v b' pv' st'. pvsB st b d a c pv = Some (v, b', pv', st') \<Longrightarrow>
              ply (searchParams st') = ply (searchParams st)
              \<and> nullMoveCount (searchParams st') = nullMoveCount (searchParams st)"
    and I: "nullMoveCount (searchParams st) \<le> 2"
  shows "PVS_body E pvsA qs k st b depth alpha beta pvLine
         = PVS_body E pvsB qs k st b depth alpha beta pvLine"
proof -
  let ?st0 = "count hashProbes_update st"
  let ?probe2 = "probeTT E pvsB ?st0 b (NULL_MOVE (cst E)) depth alpha beta pvLine"
  have probe: "probeTT E pvsA ?st0 b (NULL_MOVE (cst E)) depth alpha beta pvLine = ?probe2"
    by (rule probeTT_agree [OF A]) (use I in simp_all)
  have nm: "pvs_nullMove E pvsA s bb co d a e pv ic se l = pvs_nullMove E pvsB s bb co d a e pv ic se l"
    for s bb co d a e pv ic se l
    by (rule pvs_nullMove_agree [OF A])
  have loop: "pvs_loop E pvsA k s2 bb co ss d pa a e se pv l th ms sc
              = pvs_loop E pvsB k s2 bb co ss d pa a e se pv l th ms sc"
    if "?probe2 = Some (hs, h, a1, pv1, s1)"
      and "pvs_nullMove E pvsB s1 b0 c0 d0 a0 e0 p0 i0 se0 l0 = Some (cut, b2, l2, s2)"
    for hs h a1 pv1 s1 b0 c0 d0 a0 e0 p0 i0 se0 l0 cut b2 l2 s2 bb co ss d pa a e se pv l th ms sc
  proof -
    have P': "\<And>st b d a c pv v b' pv' st'. pvsB st b d a c pv = Some (v, b', pv', st') \<Longrightarrow>
        (\<lambda>st st'. ply (searchParams st') = ply (searchParams st)
               \<and> nullMoveCount (searchParams st') = nullMoveCount (searchParams st)) st st'"
      using P by blast
    have "nullMoveCount (searchParams s1) = nullMoveCount (searchParams st)"
      using probeTT_frame [OF frameRel_counters P' _ that(1)] by simp
    moreover have "nullMoveCount (searchParams s2) = nullMoveCount (searchParams s1)"
      using pvs_nullMove_frame [OF frameRel_counters P' _ that(2)] by simp
    ultimately have I2: "nullMoveCount (searchParams s2) \<le> 2" using I by simp
    show ?thesis by (rule pvs_loop_agree [where pvsA = pvsA and pvsB = pvsB, OF A P I2])
  qed
  show ?thesis
    unfolding PVS_body_def probe nm
    by (auto simp: Let_def loop split: option.splits prod.splits if_splits)
qed

lemma PVS_checked_eq:
  "nullMoveCount (searchParams st) \<le> 2 \<Longrightarrow>
     PVS_checked E fuel st b depth alpha beta pvLine = PVS E fuel st b depth alpha beta pvLine"
proof (induction fuel arbitrary: st b depth alpha beta pvLine)
  case 0
  show ?case by simp
next
  case (Suc fuel)
  have P: "\<And>st b d a c pv v b' pv' st'. PVS E fuel st b d a c pv = Some (v, b', pv', st') \<Longrightarrow>
              ply (searchParams st') = ply (searchParams st)
              \<and> nullMoveCount (searchParams st') = nullMoveCount (searchParams st)"
    by (rule PVS_frame [OF frameRel_counters])
  have "PVS_body E (PVS_checked E fuel) (quiescence E fuel) fuel st b depth alpha beta pvLine
        = PVS_body E (PVS E fuel) (quiescence E fuel) fuel st b depth alpha beta pvLine"
    by (rule PVS_body_agree [OF Suc.IH P Suc.prems])
  with Suc.prems show ?case by simp
qed

section \<open>nullMoveCount and the killer slots\<close>

text \<open>
  C8.  Started with \<open>nullMoveCount \<le> 2\<close>, the search never enters a PVS frame with
  \<open>nullMoveCount\<close> above 2: PVS with a check of that bound at every entry has the same
  result.  Every call of PVS returns with \<open>nullMoveCount\<close> as it found it; so does the
  null-move step, whether it returns beta or falls through, and it makes no search at
  all unless \<open>nullMoveCount < 2\<close>.
\<close>

theorem nullMoveCount_at_most_two:
  assumes "nullMoveCount (searchParams st) \<le> 2"
  shows "PVS_checked E fuel st b depth alpha beta pvLine = PVS E fuel st b depth alpha beta pvLine
       \<and> (\<forall>v b' pvLine' st'.
            PVS E fuel st b depth alpha beta pvLine = Some (v, b', pvLine', st') \<longrightarrow>
            nullMoveCount (searchParams st') = nullMoveCount (searchParams st))
       \<and> (\<forall>cutoff b' line' st'.
            pvs_nullMove E (PVS E fuel) st b color depth alpha beta isPVNode inCheck staticEval line
              = Some (cutoff, b', line', st') \<longrightarrow>
            nullMoveCount (searchParams st') = nullMoveCount (searchParams st))
       \<and> (\<not> nullMoveCount (searchParams st) < 2 \<longrightarrow>
            pvs_nullMove E pvs st b color depth alpha beta isPVNode inCheck staticEval line
              = Some (False, b, line, st))"
proof -
  let ?R = "\<lambda>st st'. ply (searchParams st') = ply (searchParams st)
                     \<and> nullMoveCount (searchParams st') = nullMoveCount (searchParams st)"
  have P: "\<And>st b d a c pv v b' pv' st'.
      PVS E fuel st b d a c pv = Some (v, b', pv', st') \<Longrightarrow> ?R st st'"
    by (rule PVS_frame [OF frameRel_counters])
  have N: "\<And>cutoff b' line' st'.
      pvs_nullMove E (PVS E fuel) st b color depth alpha beta isPVNode inCheck staticEval line
        = Some (cutoff, b', line', st') \<Longrightarrow> ?R st st'"
    by (rule pvs_nullMove_frame [OF frameRel_counters P]) simp_all
  have c1: "PVS_checked E fuel st b depth alpha beta pvLine = PVS E fuel st b depth alpha beta pvLine"
    by (rule PVS_checked_eq [OF assms])
  have c2: "\<forall>v b' pvLine' st'.
            PVS E fuel st b depth alpha beta pvLine = Some (v, b', pvLine', st') \<longrightarrow>
            nullMoveCount (searchParams st') = nullMoveCount (searchParams st)"
    using P by simp
  have c3: "\<forall>cutoff b' line' st'.
            pvs_nullMove E (PVS E fuel) st b color depth alpha beta isPVNode inCheck staticEval line
              = Some (cutoff, b', line', st') \<longrightarrow>
            nullMoveCount (searchParams st') = nullMoveCount (searchParams st)"
    using N by simp
  have c4: "\<not> nullMoveCount (searchParams st) < 2 \<longrightarrow>
      pvs_nullMove E pvs st b color depth alpha beta isPVNode inCheck staticEval line
        = Some (False, b, line, st)"
    by (simp add: pvs_nullMove_def nullMoveApplies_def)
  from c1 c2 c3 c4 show ?thesis by (intro conjI)
qed

theorem nullMoveCount_at_most_two_witness:
  "nullMoveCount (searchParams exState) \<le> 2
   \<and> PVS_checked exEnv 6 exState 2 3 0 1 [] = PVS exEnv 6 exState 2 3 0 1 []
   \<and> (case PVS exEnv 6 exState 2 3 0 1 [] of
        Some (v, b', pvLine', st') \<Rightarrow> v = 0 \<and> nullMoveCount (searchParams st') = 0
      | None \<Rightarrow> False)"
proof -
  have h: "nullMoveCount (searchParams exState) \<le> 2"
    by (simp add: exState_def exParameters_def)
  have z: "nullMoveCount (searchParams exState) = 0"
    by (simp add: exState_def exParameters_def)
  have run: "(case PVS exEnv 6 exState 2 3 0 1 [] of
                Some (v, b', pvLine', st') \<Rightarrow> v = 0 | None \<Rightarrow> False)"
    by code_simp
  note t = nullMoveCount_at_most_two [OF h, of exEnv 6 2 3 0 1 "[]"]
  from run t z have "(case PVS exEnv 6 exState 2 3 0 1 [] of
        Some (v, b', pvLine', st') \<Rightarrow> v = 0 \<and> nullMoveCount (searchParams st') = 0
      | None \<Rightarrow> False)"
    by (auto split: option.splits)
  moreover from t have "PVS_checked exEnv 6 exState 2 3 0 1 [] = PVS exEnv 6 exState 2 3 0 1 []"
    by (rule conjunct1)
  ultimately show ?thesis using h by (intro conjI)
qed

text \<open>
  C10.  The killer update leaves the two slots of every ply distinct unless both are
  NULL_MOVE: it writes the pair (\<open>m\<close>, old slot 0) at the current ply, and only when
  \<open>m\<close> differs from slot 0.  Hence every call of PVS keeps that invariant.
\<close>

theorem killer_slots_distinct:
  assumes "killersDistinct (cst E) (searchParams st)"
  shows "killersDistinct (cst E) (recordKiller m (searchParams st))
       \<and> killers (recordKiller m (searchParams st))
           = (if m \<noteq> fst (killers (searchParams st) (ply (searchParams st)))
              then (killers (searchParams st))
                     (ply (searchParams st) :=
                        (m, fst (killers (searchParams st) (ply (searchParams st)))))
              else killers (searchParams st))
       \<and> (\<forall>v b' pvLine' st'.
            PVS E fuel st b depth alpha beta pvLine = Some (v, b', pvLine', st') \<longrightarrow>
            killersDistinct (cst E) (searchParams st'))"
proof -
  have "\<And>v b' pvLine' st'.
      PVS E fuel st b depth alpha beta pvLine = Some (v, b', pvLine', st') \<Longrightarrow>
      killersDistinct (cst E) (searchParams st) \<longrightarrow> killersDistinct (cst E) (searchParams st')"
    by (rule PVS_frame [OF frameRel_killers])
  then have c3: "\<forall>v b' pvLine' st'.
            PVS E fuel st b depth alpha beta pvLine = Some (v, b', pvLine', st') \<longrightarrow>
            killersDistinct (cst E) (searchParams st')"
    using assms by simp
  have c2: "killers (recordKiller m (searchParams st))
           = (if m \<noteq> fst (killers (searchParams st) (ply (searchParams st)))
              then (killers (searchParams st))
                     (ply (searchParams st) :=
                        (m, fst (killers (searchParams st) (ply (searchParams st)))))
              else killers (searchParams st))"
    by (simp add: recordKiller_def)
  from recordKiller_distinct [OF assms, of m] c2 c3 show ?thesis by (intro conjI)
qed

theorem killer_slots_distinct_witness:
  "killersDistinct (cst exEnv) (searchParams exState)
   \<and> killersDistinct (cst exEnv) (recordKiller 7 (searchParams exState))
   \<and> (case PVS exEnv 5 exState 0 1 (-50) 50 [] of
        Some (v, b', pvLine', st') \<Rightarrow>
          v = 50 \<and> killers (searchParams st') 0 = (1, 0)
          \<and> killersDistinct (cst exEnv) (searchParams st')
      | None \<Rightarrow> False)"
proof -
  have h: "killersDistinct (cst exEnv) (searchParams exState)"
    by (simp add: killersDistinct_def exState_def exParameters_def exEnv_def exConstants_def)
  have run: "(case PVS exEnv 5 exState 0 1 (-50) 50 [] of
                Some (v, b', pvLine', st') \<Rightarrow> v = 50 \<and> killers (searchParams st') 0 = (1, 0)
              | None \<Rightarrow> False)"
    by code_simp
  note t = killer_slots_distinct [OF h, of 7 5 0 1 "-50" 50 "[]"]
  from run t have "(case PVS exEnv 5 exState 0 1 (-50) 50 [] of
        Some (v, b', pvLine', st') \<Rightarrow>
          v = 50 \<and> killers (searchParams st') 0 = (1, 0)
          \<and> killersDistinct (cst exEnv) (searchParams st')
      | None \<Rightarrow> False)"
    by (auto split: option.splits)
  moreover from t have "killersDistinct (cst exEnv) (recordKiller 7 (searchParams exState))"
    by (rule conjunct1)
  ultimately show ?thesis using h by (intro conjI)
qed

section \<open>The window: what PVS can return\<close>

lemma scoreMate_range:
  "alpha \<le> beta \<Longrightarrow>
     alpha \<le> scoreMate C P inCheck depth alpha beta \<and> scoreMate C P inCheck depth alpha beta \<le> beta"
  by (simp add: scoreMate_def Let_def)

lemma probeTT_hashMove_range:
  assumes "alpha < beta"
    and "probeTT_hashMove E pvs st b hashed depth alpha beta pvLine
           = Some (hashScore, hashed', alpha', pvLine', st')"
  shows "(hashScore = - INFTY (cst E) \<or> hashScore = beta) \<and> alpha \<le> alpha' \<and> alpha' < beta"
  using assms
  by (auto simp: probeTT_hashMove_def Let_def split: option.splits if_splits)

lemma probeTT_range:
  assumes "alpha < beta"
    and "probeTT E pvs st b hashed depth alpha beta pvLine
           = Some (hashScore, hashed', alpha', pvLine', st')"
  shows "(hashScore = - INFTY (cst E) \<or> hashScore = alpha \<or> hashScore = beta)
         \<and> alpha \<le> alpha' \<and> alpha' < beta"
proof (cases "hash_get (tt E) (transpositionTable st) b")
  case None
  with assms show ?thesis by (auto simp: probeTT_def)
next
  case (Some entry)
  show ?thesis
  proof (cases "entry_nodeType entry = ALL_NODE
              \<or> (entry_depth entry \<ge> depth \<and> entry_nodeType entry = CUT_NODE
                  \<and> entry_score entry \<ge> beta)")
    case True
    with assms Some show ?thesis
      by (auto simp: probeTT_def Let_def split: if_splits)
  next
    case False
    with assms Some have "probeTT_hashMove E pvs (count hashHits_update st) b (entry_m entry)
                          depth alpha beta pvLine = Some (hashScore, hashed', alpha', pvLine', st')"
      by (auto simp: probeTT_def Let_def split: if_splits)
    from probeTT_hashMove_range [OF assms(1) this] show ?thesis by auto
  qed
qed

lemma pvs_move_range:
  assumes "alpha < beta"
    and "pvs_move E pvs st b color ss depth prevAlpha alpha beta staticEval pvLine line toHash
           movesSearched score m = Some r"
  shows "case r of
           Return (v, pv) s \<Rightarrow> v = beta \<or> (v = - INFTY (cst E) \<and> isStop s)
         | Done (alpha', toHash', score', pv, l, ms) s \<Rightarrow> alpha \<le> alpha' \<and> alpha' < beta"
  using assms
  by (auto simp: pvs_move_def Let_def split: option.splits if_splits)

lemma pvs_loop_range:
  "alpha0 \<le> alpha \<Longrightarrow> alpha < beta \<Longrightarrow>
   pvs_loop E pvs k st b color ss depth prevAlpha alpha beta staticEval pvLine line toHash
     movesSearched score = Some r \<Longrightarrow>
   (case r of
      Return (v, pv) s \<Rightarrow> v = beta \<or> (v = - INFTY (cst E) \<and> isStop s)
    | Done (alpha', toHash', score', pv, ss') s \<Rightarrow> alpha0 \<le> alpha' \<and> alpha' < beta)"
proof (induction k arbitrary: st ss alpha pvLine line toHash movesSearched score)
  case 0
  then show ?case by simp
next
  case (Suc k)
  let ?nm = "ss_nextMove (sso E) (ss_moves ss) (searchParams st)"
  let ?m = "fst ?nm" and ?ss = "ss\<lparr>ss_moves := snd ?nm\<rparr>"
  note run = Suc.prems(3) [unfolded pvs_loop.simps Let_def]
  show ?case
  proof (cases "?m = NULL_MOVE (cst E)")
    case True
    with run Suc.prems(1,2) show ?thesis by auto
  next
    case False
    with run obtain x where
      x: "pvs_move E pvs st b color ?ss depth prevAlpha alpha beta staticEval pvLine line toHash
            movesSearched score ?m = Some x"
      by (auto split: option.splits)
    note mr = pvs_move_range [OF Suc.prems(2) x]
    show ?thesis
    proof (cases x)
      case (Return res s1)
      with run False x mr show ?thesis by (cases res) auto
    next
      case (Done vars s1)
      obtain a' th' sc' pv' l' ms' where vars: "vars = (a', th', sc', pv', l', ms')"
        by (cases vars)
      with run False x Done
      have next_run: "pvs_loop E pvs k s1 b color ?ss depth prevAlpha a' beta staticEval pv' l' th'
                        ms' sc' = Some r"
        by simp
      from mr Done vars have "alpha \<le> a'" "a' < beta" by auto
      with Suc.prems(1) have "alpha0 \<le> a'" by simp
      from Suc.IH [OF this \<open>a' < beta\<close> next_run] show ?thesis .
    qed
  qed
qed

lemma PVS_body_range:
  assumes pos: "depth \<ge> 1" and win: "alpha < beta"
    and run: "PVS_body E pvs qs k st b depth alpha beta pvLine = Some (v, b', pvLine', st')"
  shows "(alpha \<le> v \<and> v \<le> beta) \<or> (v = - INFTY (cst E) \<and> isStop st')"
proof -
  note run' = run [unfolded PVS_body_def Let_def]
  from pos have pos': "\<not> depth \<le> 0" by simp
  show ?thesis
  proof (cases "isDraw (brd E) b")
    case True
    with run' pos' win show ?thesis by (auto split: if_splits)
  next
    case nd: False
    let ?color = "getPlayerToMove (brd E) b"
    from run' pos' nd obtain hs hashed a1 pv1 s1 where
      probe: "probeTT E pvs (count hashProbes_update st) b (NULL_MOVE (cst E)) depth alpha beta
                pvLine = Some (hs, hashed, a1, pv1, s1)"
      by (auto split: option.splits)
    note pr = probeTT_range [OF win probe]
    show ?thesis
    proof (cases "hs \<noteq> - INFTY (cst E)")
      case True
      with run' pos' nd probe pr win show ?thesis by auto
    next
      case nohit: False
      define isPV where "isPV = (beta - a1 \<noteq> 1)"
      define inCheck where "inCheck = isInCheck (brd E) b ?color"
      define staticEval where "staticEval = (if ?color = WHITE then evaluate (brd E) b
                                             else - evaluate (brd E) b)"
      from run' pos' nd probe nohit obtain cut b2 l2 s2 where
        nm: "pvs_nullMove E pvs s1 b ?color depth a1 beta isPV inCheck staticEval []
               = Some (cut, b2, l2, s2)"
        by (auto simp: isPV_def inCheck_def staticEval_def split: option.splits)
      show ?thesis
      proof (cases "cut \<or> reverseFutility E b2 ?color depth isPV inCheck staticEval beta")
        case True
        with run' pos' nd probe nohit nm win have "v = beta"
          by (auto simp: isPV_def inCheck_def staticEval_def split: if_splits)
        with win show ?thesis by simp
      next
        case False
        define ss where "ss = \<lparr>ss_isPVNode = isPV, ss_isInCheck = inCheck,
                             ss_moves = generateMoves (sso E) b2 ?color depth isPV inCheck
                                          (searchParams s2) hashed\<rparr>"
        from run' pos' nd probe nohit nm False obtain r where
          loop: "pvs_loop E pvs k s2 b2 ?color ss depth alpha a1 beta staticEval pv1 l2
                   (NULL_MOVE (cst E)) (if hashed = NULL_MOVE (cst E) then 0 else 1)
                   (- INFTY (cst E)) = Some r"
          by (auto simp: isPV_def inCheck_def staticEval_def ss_def split: option.splits)
        from pr have a1: "alpha \<le> a1" "a1 < beta" by auto
        note lr = pvs_loop_range [OF a1 loop]
        show ?thesis
        proof (cases r)
          case (Return res s3)
          obtain v3 pv3 where res: "res = (v3, pv3)" by (cases res)
          from run' pos' nd probe nohit nm False loop Return res
          have "v = v3" "st' = s3"
            by (auto simp: isPV_def inCheck_def staticEval_def ss_def)
          with lr Return res win show ?thesis by auto
        next
          case (Done vars s3)
          obtain a3 th sc pv3 ss3 where vars: "vars = (a3, th, sc, pv3, ss3)" by (cases vars)
          from lr Done vars have a3: "alpha \<le> a3" "a3 < beta" by auto
          from run' pos' nd probe nohit nm False loop Done vars
          have "v = a3 \<or> v = scoreMate (cst E) (searchParams s3) (ss_isInCheck ss3) depth a3 beta"
            by (auto simp: isPV_def inCheck_def staticEval_def ss_def split: if_splits)
          with a3 scoreMate_range [of a3 beta "cst E" "searchParams s3" "ss_isInCheck ss3" depth]
          show ?thesis by auto
        qed
      qed
    qed
  qed
qed

section \<open>Enough fuel: the search returns\<close>

lemma nextMove_set:
  assumes "nextMove nullMove moves scores index = (m, moves', scores')" and "index < length moves"
  shows "set moves' = set moves \<and> m \<in> set moves"
proof -
  define bi where "bi = nextMove_scan scores (length moves) index (scores ! index) (index + 1)"
  have pre: "\<forall>k. index \<le> k \<and> k < index + 1 \<longrightarrow> scores ! k \<le> scores ! index"
    by (auto simp: le_less_Suc_eq)
  have bi: "bi < length moves"
    unfolding bi_def
    using nextMove_scan_best [OF le_refl _ _ refl pre, of "length moves"] assms(2) by simp
  have "moves' = swap_at bi index moves" "m = swap_at bi index moves ! index"
    using assms by (auto simp: nextMove_def bi_def Let_def)
  moreover have "set (swap_at bi index moves) = set moves"
    using mset_swap_at [OF bi assms(2)] by (metis set_mset_mset)
  ultimately show ?thesis
    using assms(2) by (metis length_swap_at nth_mem)
qed

lemma qs_searchMove_total:
  assumes "\<And>copy st a c. doPseudoLegalMove (brd E) b m color = Some copy \<Longrightarrow>
             search st copy (plies + 1) a c \<noteq> None"
  shows "qs_searchMove E search st b color plies alpha beta m score j \<noteq> None"
proof (cases "doPseudoLegalMove (brd E) b m color")
  case None
  then show ?thesis by (simp add: qs_searchMove_def)
next
  case (Some copy)
  from assms [OF Some] have "search (qsNode st) copy (plies + 1) (- beta) (- alpha) \<noteq> None" .
  with Some show ?thesis by (auto simp: qs_searchMove_def)
qed

lemma qs_moves_total:
  assumes "\<And>m copy st a c. m \<in> set legalMoves \<Longrightarrow>
             doPseudoLegalMove (brd E) b m color = Some copy \<Longrightarrow>
             search st copy (plies + 1) a c \<noteq> None"
  shows "qs_moves E search st b color plies alpha beta legalMoves score j \<noteq> None"
  using assms
proof (induction legalMoves arbitrary: st alpha score j)
  case Nil
  show ?case by simp
next
  case (Cons m ms)
  have "qs_searchMove E search st b color plies alpha beta m score j \<noteq> None"
    by (rule qs_searchMove_total) (rule Cons.prems, simp_all)
  then obtain x where x: "qs_searchMove E search st b color plies alpha beta m score j = Some x"
    by auto
  show ?case
  proof (cases x)
    case (Return v s1)
    with x show ?thesis by simp
  next
    case (Done vars s1)
    obtain a' sc' j' where "vars = (a', sc', j')" by (cases vars)
    moreover have "qs_moves E search s1 b color plies a' beta ms sc' j' \<noteq> None"
      by (rule Cons.IH) (rule Cons.prems, simp_all)
    ultimately show ?thesis using x Done by simp
  qed
qed

lemma qs_promotions_total:
  assumes "\<And>m copy st a c. m \<in> set legalPromotions \<Longrightarrow>
             doPseudoLegalMove (brd E) b m color = Some copy \<Longrightarrow>
             qs st copy (plies + 1) a c \<noteq> None"
  shows "qs_promotions E qs st b color plies alpha beta legalPromotions score j \<noteq> None"
  using assms
proof (induction legalPromotions arbitrary: st alpha score j)
  case Nil
  show ?case by simp
next
  case (Cons m ms)
  have "qs_searchMove E qs st b color plies alpha beta m score j \<noteq> None"
    by (rule qs_searchMove_total) (rule Cons.prems, simp_all)
  then obtain x where x: "qs_searchMove E qs st b color plies alpha beta m score j = Some x"
    by auto
  have rest: "qs_promotions E qs s b color plies a beta ms sc jj \<noteq> None" for s a sc jj
    by (rule Cons.IH) (rule Cons.prems, simp_all)
  show ?case
  proof (cases x)
    case (Return v s1)
    with x rest show ?thesis by simp
  next
    case (Done vars s1)
    obtain a' sc' j' where "vars = (a', sc', j')" by (cases vars)
    with x Done rest show ?thesis by simp
  qed
qed

lemma qs_captures_total:
  assumes "\<And>m copy st a c. m \<in> set legalCaptures \<Longrightarrow>
             doPseudoLegalMove (brd E) b m color = Some copy \<Longrightarrow>
             qs st copy (plies + 1) a c \<noteq> None"
  shows "qs_captures E qs st b color plies standPat alpha beta legalCaptures scores i score j
           \<noteq> None"
  using assms
proof (induction "length legalCaptures - i" arbitrary: st alpha legalCaptures scores i score j
        rule: less_induct)
  case less
  let ?r = "nextMove (NULL_MOVE (cst E)) legalCaptures scores i"
  let ?m = "fst ?r" and ?lc = "fst (snd ?r)" and ?sc = "snd (snd ?r)"
  note unfold = qs_captures.simps [of E qs st b color plies standPat alpha beta legalCaptures
      scores i score j, unfolded Let_def]
  show ?case
  proof (cases "?m = NULL_MOVE (cst E)")
    case True
    then show ?thesis by (subst unfold) simp
  next
    case nn: False
    have res: "?r = (?m, ?lc, ?sc)" by simp
    have inr: "i < length legalCaptures" by (rule nextMove_in_range [OF res nn])
    have dec: "length ?lc - (i + 1) < length legalCaptures - i"
      using length_nextMove [OF res] inr by simp
    have sets: "set ?lc = set legalCaptures" "?m \<in> set legalCaptures"
      using nextMove_set [OF res inr] by auto
    have rest: "qs_captures E qs s b color plies standPat a beta ?lc ?sc (i + 1) sc jj \<noteq> None"
      for s a sc jj
      by (rule less.hyps [OF dec]) (rule less.prems, simp_all add: sets)
    have "qs_searchMove E qs st b color plies alpha beta ?m score j \<noteq> None"
      by (rule qs_searchMove_total) (rule less.prems, simp_all add: sets)
    then obtain x where x: "qs_searchMove E qs st b color plies alpha beta ?m score j = Some x"
      by auto
    show ?thesis
    proof (cases x)
      case (Return v s1)
      with x nn rest show ?thesis by (subst unfold) simp
    next
      case (Done vars s1)
      obtain a' sc' j' where "vars = (a', sc', j')" by (cases vars)
      with x Done nn rest show ?thesis by (subst unfold) simp
    qed
  qed
qed

lemma exit_total:
  assumes "x \<noteq> None" and "\<And>v s. g v s \<noteq> None" and "\<And>vars s. h vars s \<noteq> None"
  shows "(case x of None \<Rightarrow> None | Some (Return v s) \<Rightarrow> g v s | Some (Done vars s) \<Rightarrow> h vars s)
         \<noteq> None"
  using assms by (auto split: option.splits LoopExit.splits)

lemma if_total:
  "(c \<Longrightarrow> x \<noteq> None) \<Longrightarrow> (\<not> c \<Longrightarrow> y \<noteq> None) \<Longrightarrow> (if c then x else y) \<noteq> None"
  by simp

lemma case_prod_total:
  "(\<And>a b. f a b \<noteq> None) \<Longrightarrow> (case p of (a, b) \<Rightarrow> f a b) \<noteq> None"
  by (cases p) simp

lemma checkQuiescence_body_total:
  assumes "\<And>m copy st a c.
      m \<in> set (getPseudoLegalCheckEscapes (brd E) b (getPlayerToMove (brd E) b)) \<Longrightarrow>
      doPseudoLegalMove (brd E) b m (getPlayerToMove (brd E) b) = Some copy \<Longrightarrow>
      qs st copy (plies + 1) a c \<noteq> None"
  shows "checkQuiescence_body E qs st b plies alpha beta \<noteq> None"
proof -
  have "qs_moves E qs st b (getPlayerToMove (brd E) b) plies alpha beta
          (getPseudoLegalCheckEscapes (brd E) b (getPlayerToMove (brd E) b)) (- INFTY (cst E)) 0
        \<noteq> None"
    by (rule qs_moves_total) (rule assms, simp_all)
  then show ?thesis
    unfolding checkQuiescence_body_def Let_def
    by (intro exit_total if_total case_prod_total) simp_all
qed

lemma quiescence_body_total:
  assumes caps: "\<And>m copy st a c.
      m \<in> set (getPseudoLegalCaptures (brd E) b (getPlayerToMove (brd E) b) False) \<Longrightarrow>
      doPseudoLegalMove (brd E) b m (getPlayerToMove (brd E) b) = Some copy \<Longrightarrow>
      qs st copy (plies + 1) a c \<noteq> None"
    and proms: "\<And>m copy st a c.
      m \<in> set (getPseudoLegalPromotions (brd E) b (getPlayerToMove (brd E) b)) \<Longrightarrow>
      doPseudoLegalMove (brd E) b m (getPlayerToMove (brd E) b) = Some copy \<Longrightarrow>
      qs st copy (plies + 1) a c \<noteq> None"
    and checks: "\<And>m copy st a c. plies \<le> 0 \<Longrightarrow>
      m \<in> set (getPseudoLegalChecks (brd E) b (getPlayerToMove (brd E) b)) \<Longrightarrow>
      doPseudoLegalMove (brd E) b m (getPlayerToMove (brd E) b) = Some copy \<Longrightarrow>
      cq st copy (plies + 1) a c \<noteq> None"
    and here: "\<And>st a c. isInCheck (brd E) b (getPlayerToMove (brd E) b) \<Longrightarrow>
      cq st b plies a c \<noteq> None"
  shows "quiescence_body E qs cq st b plies alpha beta \<noteq> None"
proof -
  let ?color = "getPlayerToMove (brd E) b"
  have c: "qs_captures E qs s b ?color plies sp a beta
             (getPseudoLegalCaptures (brd E) b ?color False) scs 0 sc 0 \<noteq> None" for s sp a scs sc
    by (rule qs_captures_total) (rule caps, simp_all)
  have p: "qs_promotions E qs s b ?color plies a beta
             (getPseudoLegalPromotions (brd E) b ?color) sc jj \<noteq> None" for s a sc jj
    by (rule qs_promotions_total) (rule proms, simp_all)
  have k: "qs_moves E cq s b ?color plies a beta
             (getPseudoLegalChecks (brd E) b ?color) sc jj \<noteq> None" if "plies \<le> 0" for s a sc jj
    by (rule qs_moves_total) (rule checks [OF that], simp_all)
  show ?thesis
    unfolding quiescence_body_def Let_def
    by (intro if_total exit_total case_prod_total c p k here) simp_all
qed

text \<open>
  A condition on the board under which the quiescence search returns.  The captures,
  the promotions and the check escapes lower a \<open>rank\<close> of the position that is at
  most \<open>N\<close>; the checking moves need not, because they are tried at \<open>plies \<le> 0\<close> only
  and every move raises \<open>plies\<close>.
\<close>

lemma quiescence_total:
  assumes bound: "\<And>x. rank x \<le> N"
    and down: "\<And>x m x'.
      m \<in> set (getPseudoLegalCaptures (brd E) x (getPlayerToMove (brd E) x) False)
          \<union> set (getPseudoLegalPromotions (brd E) x (getPlayerToMove (brd E) x))
          \<union> set (getPseudoLegalCheckEscapes (brd E) x (getPlayerToMove (brd E) x)) \<Longrightarrow>
      doPseudoLegalMove (brd E) x m (getPlayerToMove (brd E) x) = Some x' \<Longrightarrow>
      rank x' < rank x"
  shows "rank b + (N + 1) * nat (1 - plies) < fuel \<Longrightarrow>
         quiescence E fuel st b plies alpha beta \<noteq> None"
proof (induction fuel arbitrary: b st plies alpha beta)
  case 0
  then show ?case by simp
next
  case (Suc fuel)
  let ?color = "getPlayerToMove (brd E) b"
  have le1: "(N + 1) * nat (- plies) \<le> (N + 1) * nat (1 - plies)"
    by (rule mult_le_mono2) simp
  have child: "quiescence E fuel s copy (plies + 1) a c \<noteq> None"
    if "rank copy < rank b" for s copy a c
  proof (rule Suc.IH)
    have "nat (1 - (plies + 1)) = nat (- plies)" by simp
    with that Suc.prems le1
    show "rank copy + (N + 1) * nat (1 - (plies + 1)) < fuel" by simp
  qed
  have cq_here: "checkQuiescence_body E (quiescence E fuel) s b plies a c \<noteq> None" for s a c
  proof (rule checkQuiescence_body_total)
    fix m copy2 s2 a2 c2
    assume "m \<in> set (getPseudoLegalCheckEscapes (brd E) b ?color)"
      and "doPseudoLegalMove (brd E) b m ?color = Some copy2"
    then have "rank copy2 < rank b" using down [of m b copy2] by simp
    then show "quiescence E fuel s2 copy2 (plies + 1) a2 c2 \<noteq> None" by (rule child)
  qed
  have cq_check: "checkQuiescence_body E (quiescence E fuel) s copy (plies + 1) a c \<noteq> None"
    if low: "plies \<le> 0" for s copy a c
  proof (rule checkQuiescence_body_total)
    fix m copy2 s2 a2 c2
    assume "m \<in> set (getPseudoLegalCheckEscapes (brd E) copy (getPlayerToMove (brd E) copy))"
      and "doPseudoLegalMove (brd E) copy m (getPlayerToMove (brd E) copy) = Some copy2"
    then have "rank copy2 < rank copy" using down [of m copy copy2] by simp
    with bound [of copy] have r: "rank copy2 < N" by simp
    from low have "nat (1 - (plies + 1 + 1)) + 1 \<le> nat (1 - plies)" by simp
    then have "(N + 1) * (nat (1 - (plies + 1 + 1)) + 1) \<le> (N + 1) * nat (1 - plies)"
      by (rule mult_le_mono2)
    then have "(N + 1) * nat (1 - (plies + 1 + 1)) + (N + 1) \<le> (N + 1) * nat (1 - plies)"
      by simp
    with r Suc.prems have "rank copy2 + (N + 1) * nat (1 - (plies + 1 + 1)) < fuel"
      by simp
    then show "quiescence E fuel s2 copy2 (plies + 1 + 1) a2 c2 \<noteq> None" by (rule Suc.IH)
  qed
  show ?case
    unfolding quiescence.simps
  proof (rule quiescence_body_total)
    fix m copy s a c
    assume "m \<in> set (getPseudoLegalCaptures (brd E) b ?color False)"
      and "doPseudoLegalMove (brd E) b m ?color = Some copy"
    then have "rank copy < rank b" using down [of m b copy] by simp
    then show "quiescence E fuel s copy (plies + 1) a c \<noteq> None" by (rule child)
  next
    fix m copy s a c
    assume "m \<in> set (getPseudoLegalPromotions (brd E) b ?color)"
      and "doPseudoLegalMove (brd E) b m ?color = Some copy"
    then have "rank copy < rank b" using down [of m b copy] by simp
    then show "quiescence E fuel s copy (plies + 1) a c \<noteq> None" by (rule child)
  next
    fix m copy s a c
    assume "plies \<le> 0"
    then show "checkQuiescence_body E (quiescence E fuel) s copy (plies + 1) a c \<noteq> None"
      by (rule cq_check)
  next
    fix s a c
    show "checkQuiescence_body E (quiescence E fuel) s b plies a c \<noteq> None"
      by (rule cq_here)
  qed
qed

text \<open>More fuel does not change a result of the quiescence search.\<close>

lemma if_mono:
  "(c \<Longrightarrow> option_ord x x') \<Longrightarrow> (\<not> c \<Longrightarrow> option_ord y y') \<Longrightarrow>
   option_ord (if c then x else y) (if c then x' else y')"
  by simp

lemma case_prod_mono:
  "(\<And>a b. option_ord (f a b) (f' a b)) \<Longrightarrow>
   option_ord (case p of (a, b) \<Rightarrow> f a b) (case p of (a, b) \<Rightarrow> f' a b)"
  by (cases p) simp

lemma exit_mono:
  assumes "option_ord X X'"
    and "\<And>v s. option_ord (g v s) (g' v s)"
    and "\<And>vars s. option_ord (h vars s) (h' vars s)"
  shows "option_ord
           (case X of None \<Rightarrow> None | Some (Return v s) \<Rightarrow> g v s | Some (Done vars s) \<Rightarrow> h vars s)
           (case X' of None \<Rightarrow> None | Some (Return v s) \<Rightarrow> g' v s | Some (Done vars s) \<Rightarrow> h' vars s)"
proof -
  from assms(1) consider "X = None" | "X' = X"
    by (auto simp: flat_ord_def)
  then show ?thesis
  proof cases
    case 1
    then show ?thesis by (simp add: flat_ord_def)
  next
    case 2
    show ?thesis
    proof (cases X)
      case None
      then show ?thesis by (simp add: flat_ord_def)
    next
      case (Some e)
      with 2 assms(2,3) show ?thesis by (cases e) simp_all
    qed
  qed
qed

lemma option_mono:
  assumes "option_ord X X'" and "\<And>y. option_ord (g y) (g' y)"
  shows "option_ord (case X of None \<Rightarrow> None | Some y \<Rightarrow> g y)
                    (case X' of None \<Rightarrow> None | Some y \<Rightarrow> g' y)"
proof -
  from assms(1) consider "X = None" | "X' = X"
    by (auto simp: flat_ord_def)
  then show ?thesis
  proof cases
    case 1
    then show ?thesis by (simp add: flat_ord_def)
  next
    case 2
    with assms(2) show ?thesis by (cases X) (simp_all add: flat_ord_def)
  qed
qed

lemma option_ord_refl: "option_ord x x"
  by (simp add: flat_ord_def)

lemma qs_searchMove_mono:
  assumes S: "\<And>st b p a c. option_ord (s1 st b p a c) (s2 st b p a c)"
  shows "option_ord (qs_searchMove E s1 st b color plies alpha beta m score j)
                    (qs_searchMove E s2 st b color plies alpha beta m score j)"
proof (cases "doPseudoLegalMove (brd E) b m color")
  case None
  then show ?thesis by (simp add: qs_searchMove_def option_ord_refl)
next
  case (Some copy)
  have "option_ord
          (case s1 (qsNode st) copy (plies + 1) (- beta) (- alpha) of
             None \<Rightarrow> None
           | Some (v, st') \<Rightarrow>
               if - v \<ge> beta then Some (Return beta (qsFailHigh j st'))
               else Some (Done (if - v > alpha then - v else alpha, - v, j + 1) st'))
          (case s2 (qsNode st) copy (plies + 1) (- beta) (- alpha) of
             None \<Rightarrow> None
           | Some (v, st') \<Rightarrow>
               if - v \<ge> beta then Some (Return beta (qsFailHigh j st'))
               else Some (Done (if - v > alpha then - v else alpha, - v, j + 1) st'))"
    by (rule option_mono, rule S, rule option_ord_refl)
  with Some show ?thesis by (simp add: qs_searchMove_def)
qed

lemma qs_moves_mono:
  assumes S: "\<And>st b p a c. option_ord (s1 st b p a c) (s2 st b p a c)"
  shows "option_ord (qs_moves E s1 st b color plies alpha beta legalMoves score j)
                    (qs_moves E s2 st b color plies alpha beta legalMoves score j)"
proof (induction legalMoves arbitrary: st alpha score j)
  case Nil
  show ?case by (simp add: option_ord_refl)
next
  case (Cons m legalMoves)
  note step = qs_searchMove_mono [where ?s1.0 = s1 and ?s2.0 = s2, OF S]
  show ?case
    unfolding qs_moves.simps
    by (rule exit_mono, rule step, rule option_ord_refl,
        rule case_prod_mono, rule case_prod_mono, rule Cons.IH)
qed

lemma qs_promotions_mono:
  assumes S: "\<And>st b p a c. option_ord (s1 st b p a c) (s2 st b p a c)"
  shows "option_ord (qs_promotions E s1 st b color plies alpha beta legalMoves score j)
                    (qs_promotions E s2 st b color plies alpha beta legalMoves score j)"
proof (induction legalMoves arbitrary: st alpha score j)
  case Nil
  show ?case by (simp add: option_ord_refl)
next
  case (Cons m legalMoves)
  note step = qs_searchMove_mono [where ?s1.0 = s1 and ?s2.0 = s2, OF S]
  show ?case
    unfolding qs_promotions.simps
    by (rule if_mono, rule Cons.IH,
        rule exit_mono, rule step, rule option_ord_refl,
        rule case_prod_mono, rule case_prod_mono, rule Cons.IH)
qed

lemma qs_captures_mono:
  assumes S: "\<And>st b p a c. option_ord (s1 st b p a c) (s2 st b p a c)"
  shows "option_ord
           (qs_captures E s1 st b color plies standPat alpha beta legalCaptures scores i score j)
           (qs_captures E s2 st b color plies standPat alpha beta legalCaptures scores i score j)"
proof (induction "length legalCaptures - i" arbitrary: st alpha legalCaptures scores i score j
       rule: less_induct)
  case less
  let ?r = "nextMove (NULL_MOVE (cst E)) legalCaptures scores i"
  let ?m = "fst ?r" and ?lc = "fst (snd ?r)" and ?sc = "snd (snd ?r)"
  note step = qs_searchMove_mono [where ?s1.0 = s1 and ?s2.0 = s2, OF S]
  show ?case
  proof (cases "?m = NULL_MOVE (cst E)")
    case True
    then show ?thesis
      by (simp add: qs_captures.simps [of E _ st b color plies standPat alpha beta
                      legalCaptures scores i score j] Let_def option_ord_refl)
  next
    case False
    have r: "?r = (?m, ?lc, ?sc)" by simp
    from False nextMove_in_range [OF r] length_nextMove [OF r]
    have dec: "length ?lc - (i + 1) < length legalCaptures - i"
      by auto
    note IH = less.hyps [OF dec]
    show ?thesis
      unfolding qs_captures.simps [of E _ st b color plies standPat alpha beta
                      legalCaptures scores i score j] Let_def
      by (rule if_mono, rule option_ord_refl, rule if_mono, rule IH,
          rule exit_mono, rule step, rule option_ord_refl,
          rule case_prod_mono, rule case_prod_mono, rule IH)
  qed
qed

lemma checkQuiescence_body_mono:
  assumes S: "\<And>st b p a c. option_ord (q1 st b p a c) (q2 st b p a c)"
  shows "option_ord (checkQuiescence_body E q1 st b plies alpha beta)
                    (checkQuiescence_body E q2 st b plies alpha beta)"
  unfolding checkQuiescence_body_def Let_def
  by (rule exit_mono, rule qs_moves_mono [where ?s1.0 = q1 and ?s2.0 = q2, OF S],
      rule option_ord_refl, rule option_ord_refl)

lemma quiescence_body_mono:
  assumes q: "\<And>st b p a c. option_ord (q1 st b p a c) (q2 st b p a c)"
    and c: "\<And>st b p a c. option_ord (c1 st b p a c) (c2 st b p a c)"
  shows "option_ord (quiescence_body E q1 c1 st b plies alpha beta)
                    (quiescence_body E q2 c2 st b plies alpha beta)"
  unfolding quiescence_body_def Let_def
  by (rule if_mono, rule c, rule if_mono, rule option_ord_refl, rule if_mono,
      rule option_ord_refl, rule if_mono, rule option_ord_refl, rule if_mono,
      rule option_ord_refl,
      rule exit_mono, rule qs_captures_mono [where ?s1.0 = q1 and ?s2.0 = q2, OF q],
      rule option_ord_refl, rule case_prod_mono, rule case_prod_mono,
      rule exit_mono, rule qs_promotions_mono [where ?s1.0 = q1 and ?s2.0 = q2, OF q],
      rule option_ord_refl, rule case_prod_mono, rule case_prod_mono, rule if_mono,
      rule exit_mono, rule qs_moves_mono [where ?s1.0 = c1 and ?s2.0 = c2, OF c],
      rule option_ord_refl, rule option_ord_refl, rule option_ord_refl)

lemma quiescence_mono_Suc:
  "option_ord (quiescence E fuel st b plies alpha beta)
              (quiescence E (Suc fuel) st b plies alpha beta)"
proof (induction fuel arbitrary: st b plies alpha beta)
  case 0
  show ?case by (simp add: flat_ord_def)
next
  case (Suc fuel)
  note cq = checkQuiescence_body_mono [where ?q1.0 = "quiescence E fuel"
              and ?q2.0 = "quiescence E (Suc fuel)" and E = E, OF Suc.IH]
  have "option_ord
          (quiescence_body E (quiescence E fuel) (checkQuiescence_body E (quiescence E fuel))
             st b plies alpha beta)
          (quiescence_body E (quiescence E (Suc fuel))
             (checkQuiescence_body E (quiescence E (Suc fuel))) st b plies alpha beta)"
    by (rule quiescence_body_mono [where ?q1.0 = "quiescence E fuel"
              and ?q2.0 = "quiescence E (Suc fuel)"], rule Suc.IH, rule cq)
  then show ?case by simp
qed

lemma quiescence_mono:
  assumes "quiescence E K st b plies alpha beta \<noteq> None" and "K \<le> fuel"
  shows "quiescence E fuel st b plies alpha beta = quiescence E K st b plies alpha beta"
  using assms(2)
proof (induction fuel)
  case 0
  then show ?case by simp
next
  case (Suc fuel)
  show ?case
  proof (cases "K = Suc fuel")
    case True
    then show ?thesis by simp
  next
    case False
    with Suc.prems have "K \<le> fuel" by simp
    from Suc.IH [OF this] assms(1)
      quiescence_mono_Suc [of E fuel st b plies alpha beta]
    show ?thesis by (auto simp: flat_ord_def)
  qed
qed


text \<open>The principal variation search.\<close>

lemma option_total:
  "x \<noteq> None \<Longrightarrow> (\<And>y. f y \<noteq> None) \<Longrightarrow> (case x of None \<Rightarrow> None | Some y \<Rightarrow> f y) \<noteq> None"
  by (auto split: option.splits)

lemma option_total':
  "n \<noteq> None \<Longrightarrow> (\<And>y. f y \<noteq> None) \<Longrightarrow> (case x of None \<Rightarrow> n | Some y \<Rightarrow> f y) \<noteq> None"
  by (auto split: option.splits)

lemma nullMoveReduction_pos:
  assumes "depth \<ge> 3" and "staticEval \<ge> beta" and "PAWN_VALUE C > 0"
  shows "nullMoveReduction C depth staticEval beta \<ge> 1"
proof -
  have "cdiv (staticEval - beta) (PAWN_VALUE C) \<ge> 0"
    using assms by (simp add: cdiv_def sgn_if pos_imp_zdiv_nonneg_iff)
  with assms show ?thesis by (simp add: nullMoveReduction_def Let_def)
qed

lemma lmrReduction_nonneg: "depth \<ge> 3 \<Longrightarrow> lmrReduction depth movesSearched \<ge> 0"
  by (simp add: lmrReduction_def pos_imp_zdiv_nonneg_iff)

lemma probeTT_hashMove_total:
  assumes P: "\<And>d' st b a c pv. d' < depth \<Longrightarrow> pvs st b d' a c pv \<noteq> None"
  shows "probeTT_hashMove E pvs st b hashed depth alpha beta pvLine \<noteq> None"
proof -
  have call: "pvs s x (depth - 1) a c l \<noteq> None" for s x a c l
    by (rule P) simp
  show ?thesis
    unfolding probeTT_hashMove_def Let_def
    by (intro option_total option_total' if_total case_prod_total call) simp_all
qed

lemma probeTT_total:
  assumes P: "\<And>d' st b a c pv. d' < depth \<Longrightarrow> pvs st b d' a c pv \<noteq> None"
  shows "probeTT E pvs st b hashed depth alpha beta pvLine \<noteq> None"
  unfolding probeTT_def Let_def
  by (intro option_total' if_total probeTT_hashMove_total P) simp_all

lemma pvs_nullMove_total:
  assumes P: "\<And>d' st b a c pv. d' < depth \<Longrightarrow> pvs st b d' a c pv \<noteq> None"
    and pawn: "PAWN_VALUE (cst E) > 0"
  shows "pvs_nullMove E pvs st b color depth alpha beta isPVNode inCheck staticEval line \<noteq> None"
proof (cases "nullMoveApplies E st b color depth isPVNode inCheck staticEval beta")
  case False
  then show ?thesis by (simp add: pvs_nullMove_def)
next
  case True
  then have "nullMoveReduction (cst E) depth staticEval beta \<ge> 1"
    using pawn by (intro nullMoveReduction_pos) (simp_all add: nullMoveApplies_def)
  then have call: "pvs s x (depth - 1 - nullMoveReduction (cst E) depth staticEval beta) a c l
                   \<noteq> None" for s x a c l
    by (intro P) simp
  show ?thesis
    unfolding pvs_nullMove_def Let_def
    by (intro option_total if_total case_prod_total call) simp_all
qed

lemma pvs_searchMove_total:
  assumes P: "\<And>d' st b a c pv. d' < depth \<Longrightarrow> pvs st b d' a c pv \<noteq> None"
    and red: "reduction \<ge> 0"
  shows "pvs_searchMove E pvs st copy depth reduction alpha beta movesSearched line \<noteq> None"
proof -
  have call1: "pvs s x (depth - 1) a c l \<noteq> None" for s x a c l
    by (rule P) simp
  have call2: "pvs s x (depth - 1 - reduction) a c l \<noteq> None" for s x a c l
    by (rule P) (use red in simp)
  show ?thesis
    unfolding pvs_searchMove_def Let_def
    by (intro option_total if_total case_prod_total call1 call2) simp_all
qed

lemma pvs_move_total:
  assumes P: "\<And>d' st b a c pv. d' < depth \<Longrightarrow> pvs st b d' a c pv \<noteq> None"
  shows "pvs_move E pvs st b color ss depth prevAlpha alpha beta staticEval pvLine line toHash
           movesSearched score m \<noteq> None"
proof -
  have sm: "pvs_searchMove E pvs s x depth
              (if lmrApplies E s2 x2 color ss depth prevAlpha alpha m movesSearched
               then lmrReduction depth movesSearched else 0) a c ms l \<noteq> None" for s x s2 x2 a c ms l
    by (intro pvs_searchMove_total P) (auto simp: lmrApplies_def lmrReduction_nonneg)
  show ?thesis
    unfolding pvs_move_def Let_def
    by (intro option_total option_total' if_total case_prod_total sm) simp_all
qed

lemma pvs_loop_total:
  assumes P: "\<And>d' st b a c pv. d' < depth \<Longrightarrow> pvs st b d' a c pv \<noteq> None"
    and D: "\<And>g Q. fst (ss_nextMove (sso E) g Q) \<noteq> NULL_MOVE (cst E) \<Longrightarrow>
              left (snd (ss_nextMove (sso E) g Q)) < left g"
  shows "left (ss_moves ss) < k \<Longrightarrow>
         pvs_loop E pvs k st b color ss depth prevAlpha alpha beta staticEval pvLine line toHash
           movesSearched score \<noteq> None"
proof (induction k arbitrary: st ss alpha pvLine line toHash movesSearched score)
  case 0
  then show ?case by simp
next
  case (Suc k)
  let ?nm = "ss_nextMove (sso E) (ss_moves ss) (searchParams st)"
  let ?m = "fst ?nm" and ?ss = "ss\<lparr>ss_moves := snd ?nm\<rparr>"
  show ?case
  proof (cases "?m = NULL_MOVE (cst E)")
    case True
    then show ?thesis by (simp add: Let_def)
  next
    case False
    from D [OF False] Suc.prems have "left (ss_moves ?ss) < k" by simp
    note rest = Suc.IH [OF this]
    have mv: "pvs_move E pvs st b color ?ss depth prevAlpha alpha beta staticEval pvLine line
                toHash movesSearched score ?m \<noteq> None"
      by (rule pvs_move_total [OF P])
    show ?thesis
      unfolding pvs_loop.simps Let_def
      using False by (intro if_total exit_total case_prod_total mv rest) simp_all
  qed
qed

lemma PVS_body_total:
  assumes P: "\<And>d' st b a c pv. d' < depth \<Longrightarrow> pvs st b d' a c pv \<noteq> None"
    and Q: "\<And>st b a c. qs st b 0 a c \<noteq> None"
    and D: "\<And>g Q. fst (ss_nextMove (sso E) g Q) \<noteq> NULL_MOVE (cst E) \<Longrightarrow>
              left (snd (ss_nextMove (sso E) g Q)) < left g"
    and L: "\<And>b color depth isPVNode inCheck P hashed.
              left (generateMoves (sso E) b color depth isPVNode inCheck P hashed) < k"
    and pawn: "PAWN_VALUE (cst E) > 0"
  shows "PVS_body E pvs qs k st b depth alpha beta pvLine \<noteq> None"
proof -
  have loop: "left (ss_moves ss) < k \<Longrightarrow>
              pvs_loop E pvs k s x co ss depth pa a c se pv l th ms sc \<noteq> None"
    for s x co ss pa a c se pv l th ms sc
    by (rule pvs_loop_total [OF P D])
  show ?thesis
    unfolding PVS_body_def Let_def
    by (intro option_total if_total exit_total case_prod_total Q loop
          probeTT_total pvs_nullMove_total P pawn) (simp_all add: L)
qed

lemma PVS_total:
  assumes I: "iteratorBounded E left N" and Q: "quiescenceReturns E K"
    and pawn: "PAWN_VALUE (cst E) > 0"
  shows "max N K + 1 + nat depth < fuel \<Longrightarrow> PVS E fuel st b depth alpha beta pvLine \<noteq> None"
proof (induction fuel arbitrary: st b depth alpha beta pvLine)
  case 0
  then show ?case by simp
next
  case (Suc fuel)
  from I have lf: "\<And>b color depth isPVNode inCheck P hashed.
              left (generateMoves (sso E) b color depth isPVNode inCheck P hashed) \<le> N"
    and D: "\<And>g Q. fst (ss_nextMove (sso E) g Q) \<noteq> NULL_MOVE (cst E) \<Longrightarrow>
              left (snd (ss_nextMove (sso E) g Q)) < left g"
    unfolding iteratorBounded_def by blast+
  have big: "N < fuel" "K \<le> fuel" using Suc.prems by simp_all
  have L: "\<And>b color depth isPVNode inCheck P hashed.
             left (generateMoves (sso E) b color depth isPVNode inCheck P hashed) < fuel"
    using lf big(1) by (meson le_less_trans)
  have Q': "quiescence E fuel st b 0 a c \<noteq> None" for st b a c
  proof -
    from Q have "quiescence E K st b 0 a c \<noteq> None"
      by (simp add: quiescenceReturns_def)
    from this quiescence_mono [OF this big(2)] show ?thesis by simp
  qed
  show ?case
  proof (cases "depth \<le> 0")
    case True
    with Q' [of st b alpha beta] show ?thesis
      by (auto simp: PVS_body_def split: option.splits)
  next
    case False
    have P: "\<And>d' st b a c pv. d' < depth \<Longrightarrow> PVS E fuel st b d' a c pv \<noteq> None"
      by (rule Suc.IH) (use Suc.prems False in simp)
    show ?thesis
      unfolding PVS.simps
      by (rule PVS_body_total [where left = left and E = E and pvs = "PVS E fuel"
                 and qs = "quiescence E fuel" and k = fuel, OF P Q' D L pawn])
  qed
qed

section \<open>Fail-hard\<close>

lemma exEnv_iterator: "iteratorBounded exEnv length 1"
  unfolding iteratorBounded_def
  by (auto simp: exEnv_def exConstants_def exSearchSpaceOps_def split: list.splits)

lemma exCheckEnv_iterator: "iteratorBounded exCheckEnv length 1"
  unfolding iteratorBounded_def
  by (auto simp: exCheckEnv_def exEnv_def exConstants_def exSearchSpaceOps_def
           split: list.splits)

text \<open>The perpetual check does not keep the quiescence search from returning.\<close>

lemma exCheckEnv_quiescence: "quiescenceReturns exCheckEnv 4"
  unfolding quiescenceReturns_def
proof (intro allI)
  fix st :: "(nat \<times> HashEntry) list SearchState" and b :: nat and alpha beta :: int
  let ?rank = "\<lambda>b. if b = 3 \<or> b = 11 \<or> b = 13 then 1 else (0::nat)"
  show "quiescence exCheckEnv 4 st b 0 alpha beta \<noteq> None"
  proof (rule quiescence_total [where rank = ?rank and N = 1])
    show "?rank x \<le> 1" for x by simp
    show "?rank x' < ?rank x"
      if "m \<in> set (getPseudoLegalCaptures (brd exCheckEnv) x
                     (getPlayerToMove (brd exCheckEnv) x) False)
            \<union> set (getPseudoLegalPromotions (brd exCheckEnv) x
                     (getPlayerToMove (brd exCheckEnv) x))
            \<union> set (getPseudoLegalCheckEscapes (brd exCheckEnv) x
                     (getPlayerToMove (brd exCheckEnv) x))"
        and "doPseudoLegalMove (brd exCheckEnv) x m (getPlayerToMove (brd exCheckEnv) x) = Some x'"
      for x m x'
      using that
      by (auto simp: exCheckEnv_def exEnv_def exBoard_def exCheckPlay_def exPlay_def
               split: if_splits)
    show "?rank b + (1 + 1) * nat (1 - 0) < 4" by simp
  qed
qed

lemma exCheckEnv_neverTimesOut: "neverTimesOut exCheckEnv exState"
  by (simp add: neverTimesOut_def exCheckEnv_def exEnv_def exState_def exParameters_def)

lemma exState_neverTimesOut: "neverTimesOut exEnv exState"
  by (simp add: neverTimesOut_def exEnv_def exState_def exParameters_def)

text \<open>
  C1.  PVS at depth \<open>\<ge> 1\<close> with \<open>alpha < beta\<close> returns, and what it returns is in
  \<open>[alpha, beta]\<close> or is \<open>-INFTY\<close> with the stop flag set at the return.  When the flag
  is clear at the call and no reading of the clock passes the time limit, the flag is
  clear at the return and the value is in \<open>[alpha, beta]\<close>; for the window
  \<open>[alpha, alpha + 1]\<close> it is then \<open>alpha\<close> or \<open>alpha + 1\<close>.  That it returns needs the
  move iterator to be finite, the quiescence search to return, PAWN_VALUE to be
  positive, and fuel above the depth and the two bounds.
\<close>

theorem PVS_fail_hard:
  assumes "iteratorBounded E left N" and "quiescenceReturns E K"
    and "PAWN_VALUE (cst E) > 0" and "max N K + 1 + nat depth < fuel"
    and "depth \<ge> 1" and "alpha < beta"
  shows "\<exists>v b' pvLine' st'.
           PVS E fuel st b depth alpha beta pvLine = Some (v, b', pvLine', st')
           \<and> ((alpha \<le> v \<and> v \<le> beta) \<or> (v = - INFTY (cst E) \<and> isStop st'))
           \<and> (\<not> isStop st \<and> neverTimesOut E st \<longrightarrow>
                \<not> isStop st' \<and> alpha \<le> v \<and> v \<le> beta
                \<and> (beta = alpha + 1 \<longrightarrow> v = alpha \<or> v = alpha + 1))"
proof -
  from PVS_total [OF assms(1,2,3,4)] obtain v b' pvLine' st' where
    run: "PVS E fuel st b depth alpha beta pvLine = Some (v, b', pvLine', st')"
    by (metis not_Some_eq prod_cases4)
  from assms(4) obtain fuel' where fuel: "fuel = Suc fuel'"
    by (cases fuel) simp_all
  from run have "PVS_body E (PVS E fuel') (quiescence E fuel') fuel' st b depth alpha beta pvLine
                   = Some (v, b', pvLine', st')"
    by (simp add: fuel)
  note range = PVS_body_range [OF assms(5,6) this]
  from PVS_frame [OF frameRel_stop run]
  have stop: "isStop st' \<longrightarrow> isStop st \<or> \<not> neverTimesOut E st"
    by simp
  from range stop
  have "\<not> isStop st \<and> neverTimesOut E st \<longrightarrow>
          \<not> isStop st' \<and> alpha \<le> v \<and> v \<le> beta
          \<and> (beta = alpha + 1 \<longrightarrow> v = alpha \<or> v = alpha + 1)"
    by auto
  with run range show ?thesis by blast
qed

text \<open>
  The witness is a run on the positions of the perpetual check: position 10 at depth 2
  with the window \<open>[0, 1]\<close>.
\<close>

theorem PVS_fail_hard_witness:
  "iteratorBounded exCheckEnv length 1 \<and> quiescenceReturns exCheckEnv 4
   \<and> PAWN_VALUE (cst exCheckEnv) > 0
   \<and> \<not> isStop exState \<and> neverTimesOut exCheckEnv exState
   \<and> (case PVS exCheckEnv 8 exState 10 2 0 1 [] of
        Some (v, b', pvLine', st') \<Rightarrow> v = 0 \<and> \<not> isStop st'
      | None \<Rightarrow> False)"
proof -
  have h3: "PAWN_VALUE (cst exCheckEnv) > 0"
    by (simp add: exCheckEnv_def exEnv_def exConstants_def)
  have h4: "max (1::nat) 4 + 1 + nat 2 < 8" by simp
  have h5: "(2::int) \<ge> 1" and h6: "(0::int) < 1" by simp_all
  have s: "\<not> isStop exState" by (simp add: exState_def)
  have run: "(case PVS exCheckEnv 8 exState 10 2 0 1 [] of
                Some (v, b', pvLine', st') \<Rightarrow> v = 0 | None \<Rightarrow> False)"
    by code_simp
  note t = PVS_fail_hard [OF exCheckEnv_iterator exCheckEnv_quiescence h3 h4 h5 h6,
             of exState 10 "[]"]
  from run t s exCheckEnv_neverTimesOut
  have "(case PVS exCheckEnv 8 exState 10 2 0 1 [] of
           Some (v, b', pvLine', st') \<Rightarrow> v = 0 \<and> \<not> isStop st'
         | None \<Rightarrow> False)"
    by (auto split: option.splits)
  with exCheckEnv_iterator exCheckEnv_quiescence h3 s exCheckEnv_neverTimesOut show ?thesis
    by (intro conjI)
qed

theorem PVS_stop_flag_counterexample:
  "isStop (exState\<lparr>isStop := True\<rparr>)
   \<and> map_option fst (PVS exEnv 5 (exState\<lparr>isStop := True\<rparr>) 0 1 0 1 []) = Some (- 32767)
   \<and> (- 32767 :: int) < 0"
  by code_simp

section \<open>The stop flag\<close>



















section \<open>Mate scores in the transposition table\<close>

text \<open>
  C3.  PVS writes the table at two places, the beta cutoff of the move loop and the
  end of the move loop, and what it stores there is \<open>beta\<close> and the returned \<open>alpha\<close>
  as they are: no ply is added or subtracted (\<open>add\<close> is not even given the ply).
  probeTT compares the stored score as it is with \<open>alpha\<close> and \<open>beta\<close>, whatever the
  ply of the probing node.
\<close>

theorem TT_score_stored_and_read_unchanged:
  "transpositionTable (pvs_cutoff E st b color ss depth beta m movesSearched)
     = hash_add (tt E) (transpositionTable st) b depth m beta CUT_NODE
         (rootMoveNumber (searchParams st))
   \<and> transpositionTable (pvs_epilogue E st b color ss depth prevAlpha alpha beta toHash)
     = (if toHash \<noteq> NULL_MOVE (cst E) \<and> prevAlpha < alpha \<and> alpha < beta
        then hash_add (tt E) (transpositionTable st) b depth toHash alpha PV_NODE
               (rootMoveNumber (searchParams st))
        else if alpha \<le> prevAlpha
        then hash_add (tt E) (transpositionTable st) b depth (NULL_MOVE (cst E)) alpha ALL_NODE
               (rootMoveNumber (searchParams st))
        else transpositionTable st)
   \<and> (\<forall>entry. hash_get (tt E) (transpositionTable st) b = Some entry
         \<and> entry_nodeType entry = CUT_NODE \<and> entry_depth entry \<ge> depth
         \<and> entry_score entry \<ge> beta \<longrightarrow>
         probeTT E pvs st b hashed depth alpha beta pvLine
           = Some (beta, entry_m entry, alpha, pvLine,
                   count firstFailHighs_update (count failHighs_update
                     (count hashScoreCuts_update (count hashHits_update st)))))
   \<and> (\<forall>entry. hash_get (tt E) (transpositionTable st) b = Some entry
         \<and> entry_nodeType entry = ALL_NODE \<and> entry_depth entry \<ge> depth
         \<and> entry_score entry \<le> alpha \<longrightarrow>
         probeTT E pvs st b hashed depth alpha beta pvLine
           = Some (alpha, hashed, alpha, pvLine,
                   count hashScoreCuts_update (count hashHits_update st)))"
proof -
  have c1: "transpositionTable (pvs_cutoff E st b color ss depth beta m movesSearched)
     = hash_add (tt E) (transpositionTable st) b depth m beta CUT_NODE
         (rootMoveNumber (searchParams st))"
    by (simp add: pvs_cutoff_def Let_def count_def)
  have c2: "transpositionTable (pvs_epilogue E st b color ss depth prevAlpha alpha beta toHash)
     = (if toHash \<noteq> NULL_MOVE (cst E) \<and> prevAlpha < alpha \<and> alpha < beta
        then hash_add (tt E) (transpositionTable st) b depth toHash alpha PV_NODE
               (rootMoveNumber (searchParams st))
        else if alpha \<le> prevAlpha
        then hash_add (tt E) (transpositionTable st) b depth (NULL_MOVE (cst E)) alpha ALL_NODE
               (rootMoveNumber (searchParams st))
        else transpositionTable st)"
    by (simp add: pvs_epilogue_def Let_def)
  have c3: "\<forall>entry. hash_get (tt E) (transpositionTable st) b = Some entry
         \<and> entry_nodeType entry = CUT_NODE \<and> entry_depth entry \<ge> depth
         \<and> entry_score entry \<ge> beta \<longrightarrow>
         probeTT E pvs st b hashed depth alpha beta pvLine
           = Some (beta, entry_m entry, alpha, pvLine,
                   count firstFailHighs_update (count failHighs_update
                     (count hashScoreCuts_update (count hashHits_update st))))"
    by (simp add: probeTT_def Let_def)
  have c4: "\<forall>entry. hash_get (tt E) (transpositionTable st) b = Some entry
         \<and> entry_nodeType entry = ALL_NODE \<and> entry_depth entry \<ge> depth
         \<and> entry_score entry \<le> alpha \<longrightarrow>
         probeTT E pvs st b hashed depth alpha beta pvLine
           = Some (alpha, hashed, alpha, pvLine,
                   count hashScoreCuts_update (count hashHits_update st))"
    by (simp add: probeTT_def Let_def)
  from c1 c2 c3 c4 show ?thesis by (intro conjI)
qed

theorem TT_score_stored_and_read_unchanged_witness:
  "transpositionTable
     (pvs_epilogue exEnv (exState\<lparr>searchParams := exParameters\<lparr>ply := 5\<rparr>\<rparr>) 0 WHITE
        \<lparr>ss_isPVNode = True, ss_isInCheck = False, ss_moves = []\<rparr> 1 (- 32766) 32760 32766 1)
     = [(0, \<lparr>entry_m = 1, entry_score = 32760, entry_depth = 1, entry_nodeType = PV_NODE\<rparr>)]
   \<and> map_option fst
       (probeTT exEnv (PVS exEnv 5)
          (exState\<lparr>transpositionTable :=
              [(0, \<lparr>entry_m = 1, entry_score = 32760, entry_depth = 1,
                    entry_nodeType = CUT_NODE\<rparr>)],
             searchParams := exParameters\<lparr>ply := 9\<rparr>\<rparr>)
          0 0 1 32700 32701 [])
       = Some 32701"
proof -
  let ?st = "exState\<lparr>searchParams := exParameters\<lparr>ply := 5\<rparr>\<rparr>"
  let ?e = "\<lparr>entry_m = 1, entry_score = 32760, entry_depth = 1, entry_nodeType = CUT_NODE\<rparr>"
  let ?st' = "exState\<lparr>transpositionTable := [(0, ?e)],
                      searchParams := exParameters\<lparr>ply := 9\<rparr>\<rparr>"
  note t1 = TT_score_stored_and_read_unchanged [where E = exEnv and st = ?st and b = 0
              and depth = 1 and prevAlpha = "- 32766" and alpha = 32760 and beta = 32766
              and toHash = 1 and color = WHITE
              and ss = "\<lparr>ss_isPVNode = True, ss_isInCheck = False, ss_moves = []\<rparr>"]
  note t2 = TT_score_stored_and_read_unchanged [where E = exEnv and st = ?st' and b = 0
              and depth = 1 and alpha = 32700 and beta = 32701 and pvs = "PVS exEnv 5"
              and hashed = 0 and pvLine = "[]"]
  have g: "hash_get (tt exEnv) (transpositionTable ?st') 0 = Some ?e"
    by (simp add: exEnv_def exHash_def)
  from t1 have "transpositionTable
     (pvs_epilogue exEnv ?st 0 WHITE
        \<lparr>ss_isPVNode = True, ss_isInCheck = False, ss_moves = []\<rparr> 1 (- 32766) 32760 32766 1)
     = [(0, \<lparr>entry_m = 1, entry_score = 32760, entry_depth = 1, entry_nodeType = PV_NODE\<rparr>)]"
    by (simp add: exEnv_def exHash_def exConstants_def exState_def)
  moreover from t2 g have "map_option fst (probeTT exEnv (PVS exEnv 5) ?st' 0 0 1 32700 32701 [])
                           = Some 32701"
    by simp
  ultimately show ?thesis by (intro conjI)
qed

theorem TT_mate_score_not_adjusted_counterexample:
  "ply (searchParams (exState\<lparr>searchParams := exParameters\<lparr>ply := 5\<rparr>\<rparr>)) = 5
   \<and> (case PVS exEnv 5 (exState\<lparr>searchParams := exParameters\<lparr>ply := 5\<rparr>\<rparr>) 0 1
             (- 32766) 32766 [] of
        Some (v, b', pvLine', st') \<Rightarrow>
          v = 32760
          \<and> map_option entry_score (hash_get (tt exEnv) (transpositionTable st') 0) = Some 32760
      | None \<Rightarrow> False)
   \<and> (32760::int) > MATE_SCORE (cst exEnv) - MAX_DEPTH (cst exEnv)
   \<and> (32760::int) \<noteq> 32760 + 5"
  by code_simp

section \<open>Stalemate\<close>

lemma checkTime_clear:
  assumes "\<not> isStop st" and "neverTimesOut E st"
  shows "\<not> isStop (checkTime E st)" and "searchParams (checkTime E st) = searchParams st"
    and "neverTimesOut E (checkTime E st)"
  using assms by (auto simp: checkTime_def neverTimesOut_def Let_def not_less)

lemma pvs_move_stalemate:
  assumes "\<not> isStop st" and "neverTimesOut E st"
    and "\<not> futilityPrune E b color ss depth staticEval alpha m"
    and "doPseudoLegalMove (brd E) b m color = None"
  shows "pvs_move E pvs st b color ss depth prevAlpha alpha beta staticEval pvLine line toHash
           movesSearched score m
         = Some (Done (alpha, toHash, score, pvLine, line, movesSearched) (checkTime E st))"
  using assms checkTime_clear(1) [OF assms(1,2)]
  by (simp add: pvs_move_def Let_def)

lemma pvs_loop_stalemate:
  assumes nolegal: "\<And>m. doPseudoLegalMove (brd E) b m color = None"
    and D: "\<And>g Q. fst (ss_nextMove (sso E) g Q) \<noteq> NULL_MOVE (cst E) \<Longrightarrow>
              left (snd (ss_nextMove (sso E) g Q)) < left g"
  shows "\<not> isStop st \<Longrightarrow> neverTimesOut E st \<Longrightarrow> left (ss_moves ss) < k \<Longrightarrow>
         (\<And>m. \<not> futilityPrune E b color ss depth staticEval alpha m) \<Longrightarrow>
         \<exists>ss' st'. pvs_loop E pvs k st b color ss depth prevAlpha alpha beta staticEval pvLine line
                     toHash movesSearched score
                   = Some (Done (alpha, toHash, score, pvLine, ss') st')
                 \<and> ss_isInCheck ss' = ss_isInCheck ss"
proof (induction k arbitrary: st ss)
  case 0
  then show ?case by simp
next
  case (Suc k)
  let ?nm = "ss_nextMove (sso E) (ss_moves ss) (searchParams st)"
  let ?m = "fst ?nm" and ?ss = "ss\<lparr>ss_moves := snd ?nm\<rparr>"
  show ?case
  proof (cases "?m = NULL_MOVE (cst E)")
    case True
    then show ?thesis by (simp add: Let_def)
  next
    case False
    have fut: "\<not> futilityPrune E b color ?ss depth staticEval alpha m" for m
      using Suc.prems(4) [of m] by (simp add: futilityPrune_def nodeIsReducible_def)
    have mv: "pvs_move E pvs st b color ?ss depth prevAlpha alpha beta staticEval pvLine line
                toHash movesSearched score ?m
              = Some (Done (alpha, toHash, score, pvLine, line, movesSearched) (checkTime E st))"
      by (rule pvs_move_stalemate [OF Suc.prems(1,2) fut nolegal])
    from D [OF False] Suc.prems(3) have "left (ss_moves ?ss) < k" by simp
    from Suc.IH [OF checkTime_clear(1) [OF Suc.prems(1,2)] checkTime_clear(3) [OF Suc.prems(1,2)]
           this fut]
    obtain ss' st' where
      "pvs_loop E pvs k (checkTime E st) b color ?ss depth prevAlpha alpha beta staticEval pvLine
         line toHash movesSearched score = Some (Done (alpha, toHash, score, pvLine, ss') st')"
      and "ss_isInCheck ss' = ss_isInCheck ?ss"
      by blast
    with False mv show ?thesis by (simp add: Let_def)
  qed
qed

lemma probeTT_stalemate:
  assumes nohash: "\<And>m. doHashMove (brd E) b m (getPlayerToMove (brd E) b) = None"
    and noTT: "\<And>entry. hash_get (tt E) (transpositionTable st) b = Some entry \<Longrightarrow>
                 entry_depth entry \<ge> depth \<Longrightarrow>
                 (entry_nodeType entry = ALL_NODE \<longrightarrow> alpha < entry_score entry)
                 \<and> (entry_nodeType entry = CUT_NODE \<longrightarrow> entry_score entry < beta)"
  shows "\<exists>st'. probeTT E pvs st b (NULL_MOVE (cst E)) depth alpha beta pvLine
                 = Some (- INFTY (cst E), NULL_MOVE (cst E), alpha, pvLine, st')
               \<and> isStop st' = isStop st \<and> searchParams st' = searchParams st"
proof (cases "hash_get (tt E) (transpositionTable st) b")
  case None
  then show ?thesis by (simp add: probeTT_def)
next
  case (Some entry)
  note tt = noTT [OF Some]
  show ?thesis
  proof (cases "entry_depth entry \<ge> depth")
    case True
    with Some tt show ?thesis
      by (auto simp: probeTT_def probeTT_hashMove_def nohash Let_def count_def)
  next
    case False
    with Some show ?thesis
      by (auto simp: probeTT_def probeTT_hashMove_def nohash Let_def count_def)
  qed
qed


text \<open>
  C4.  Take a stalemated position: the side to move is not in check and no move can
  be played, the stored move of the table included.  PVS at depth \<open>\<ge> 1\<close> with
  \<open>alpha < beta\<close> returns \<open>clamp(0, alpha, beta)\<close> when nothing returns before the move
  loop has run out: the table gives no score cutoff for the position, the null move
  and reverse futility pruning do not apply, no move is futility-pruned (a pruned
  move counts as searched), the stop flag is clear and the clock never passes the
  time limit.  The move loop runs out because the move iterator is finite; no search
  is made below the node, so that any fuel above the bound of the iterator will do.
\<close>

theorem PVS_stalemate:
  fixes E :: "('b, 't, 'g) Env"
  defines "color b \<equiv> getPlayerToMove (brd E) b"
    and "staticEval b \<equiv> (if getPlayerToMove (brd E) b = WHITE then evaluate (brd E) b
                           else - evaluate (brd E) b)"
  assumes bounded: "iteratorBounded E left N" and fuel: "N + 1 < fuel"
    and depth: "depth \<ge> 1" and win: "alpha < beta"
    and notInCheck: "\<not> isInCheck (brd E) b (color b)"
    and nolegal: "\<And>m. doPseudoLegalMove (brd E) b m (color b) = None"
    and nohash: "\<And>m. doHashMove (brd E) b m (color b) = None"
    and running: "\<not> isStop st" "neverTimesOut E st"
    and noTT: "\<And>entry. hash_get (tt E) (transpositionTable st) b = Some entry \<Longrightarrow>
                 entry_depth entry \<ge> depth \<Longrightarrow>
                 (entry_nodeType entry = ALL_NODE \<longrightarrow> alpha < entry_score entry)
                 \<and> (entry_nodeType entry = CUT_NODE \<longrightarrow> entry_score entry < beta)"
    and noNull: "\<not> nullMoveApplies E st b (color b) depth (beta - alpha \<noteq> 1) False
                     (staticEval b) beta"
    and noRFP: "\<not> reverseFutility E b (color b) depth (beta - alpha \<noteq> 1) False
                    (staticEval b) beta"
    and noFut: "\<And>m g. \<not> futilityPrune E b (color b)
                           \<lparr>ss_isPVNode = (beta - alpha \<noteq> 1), ss_isInCheck = False, ss_moves = g\<rparr>
                           depth (staticEval b) alpha m"
  shows "map_option fst (PVS E fuel st b depth alpha beta pvLine) = Some (max alpha (min 0 beta))"
proof -
  from fuel obtain k where k: "fuel = Suc k" and Nk: "N < k"
    by (cases fuel) simp_all
  from bounded have lf: "\<And>b color depth isPVNode inCheck P hashed.
              left (generateMoves (sso E) b color depth isPVNode inCheck P hashed) \<le> N"
    and D: "\<And>g Q. fst (ss_nextMove (sso E) g Q) \<noteq> NULL_MOVE (cst E) \<Longrightarrow>
              left (snd (ss_nextMove (sso E) g Q)) < left g"
    unfolding iteratorBounded_def by blast+
  have clamp: "(if 0 \<ge> beta then beta else if 0 > alpha then 0 else alpha) = max alpha (min 0 beta)"
    using win by auto
  from depth have pos: "\<not> depth \<le> 0" by simp
  show ?thesis
  proof (cases "isDraw (brd E) b")
    case True
    with pos clamp show ?thesis by (simp add: k PVS_body_def)
  next
    case nd: False
    let ?st1 = "count hashProbes_update st"
    have noTT1: "\<And>entry. hash_get (tt E) (transpositionTable ?st1) b = Some entry \<Longrightarrow>
                 entry_depth entry \<ge> depth \<Longrightarrow>
                 (entry_nodeType entry = ALL_NODE \<longrightarrow> alpha < entry_score entry)
                 \<and> (entry_nodeType entry = CUT_NODE \<longrightarrow> entry_score entry < beta)"
      using noTT by (simp add: count_def)
    from probeTT_stalemate [where pvs = "PVS E k" and pvLine = pvLine,
           OF nohash [unfolded color_def] noTT1]
    obtain st2 where
      probe: "probeTT E (PVS E k) ?st1 b (NULL_MOVE (cst E)) depth alpha beta pvLine
                = Some (- INFTY (cst E), NULL_MOVE (cst E), alpha, pvLine, st2)"
      and stop2: "isStop st2 = isStop ?st1" and par2: "searchParams st2 = searchParams ?st1"
      by blast
    have par: "searchParams st2 = searchParams st" and stop: "\<not> isStop st2"
      using stop2 par2 running(1) by (simp_all add: count_def)
    have nto: "neverTimesOut E st2"
      using running(2) par by (simp add: neverTimesOut_def)
    have null: "pvs_nullMove E (PVS E k) st2 b (color b) depth alpha beta (beta - alpha \<noteq> 1) False
                  (staticEval b) [] = Some (False, b, [], st2)"
    proof -
      have "\<not> nullMoveApplies E st2 b (color b) depth (beta - alpha \<noteq> 1) False
                (staticEval b) beta"
        using noNull par by (simp add: nullMoveApplies_def)
      then show ?thesis by (simp add: pvs_nullMove_def)
    qed
    let ?ss = "\<lparr>ss_isPVNode = (beta - alpha \<noteq> 1), ss_isInCheck = False,
                ss_moves = generateMoves (sso E) b (color b) depth (beta - alpha \<noteq> 1) False
                             (searchParams st2) (NULL_MOVE (cst E))\<rparr>"
    have "left (ss_moves ?ss) < k"
      using lf [of b "color b" depth "beta - alpha \<noteq> 1" False "searchParams st2"
                  "NULL_MOVE (cst E)"] Nk by simp
    from pvs_loop_stalemate [where pvs = "PVS E k" and line = "[]" and pvLine = pvLine
           and toHash = "NULL_MOVE (cst E)" and movesSearched = 0 and score = "- INFTY (cst E)"
           and prevAlpha = alpha and beta = beta,
           OF nolegal D stop nto this noFut]
    obtain ss' st3 where
      loop: "pvs_loop E (PVS E k) k st2 b (color b) ?ss depth alpha alpha beta (staticEval b) pvLine
               [] (NULL_MOVE (cst E)) 0 (- INFTY (cst E))
             = Some (Done (alpha, NULL_MOVE (cst E), - INFTY (cst E), pvLine, ss') st3)"
      and chk: "ss_isInCheck ss' = ss_isInCheck ?ss"
      by blast
    from chk have chk': "\<not> ss_isInCheck ss'" by simp
    have "PVS_body E (PVS E k) (quiescence E k) k st b depth alpha beta pvLine
          = Some (scoreMate (cst E) (searchParams st3) False depth alpha beta, b, pvLine, st3)"
      using pos nd probe null noRFP notInCheck loop chk'
      by (simp add: PVS_body_def Let_def color_def staticEval_def)
    then show ?thesis
      using clamp by (simp add: k scoreMate_def)
  qed
qed


theorem PVS_stalemate_witness:
  "iteratorBounded exEnv length 1
   \<and> \<not> isInCheck (brd exEnv) 2 (getPlayerToMove (brd exEnv) 2)
   \<and> (\<forall>m. doPseudoLegalMove (brd exEnv) 2 m (getPlayerToMove (brd exEnv) 2) = None)
   \<and> \<not> isStop exState \<and> neverTimesOut exEnv exState
   \<and> map_option fst (PVS exEnv 5 exState 2 1 (- 50) 50 []) = Some 0"
proof -
  have h2: "(1::nat) + 1 < 5" and h3: "(1::int) \<ge> 1" and h4: "(- 50::int) < 50"
    by simp_all
  have h5: "\<not> isInCheck (brd exEnv) 2 (getPlayerToMove (brd exEnv) 2)"
    by (simp add: exEnv_def exBoard_def)
  have h6: "doPseudoLegalMove (brd exEnv) 2 m (getPlayerToMove (brd exEnv) 2) = None" for m
    by (simp add: exEnv_def exBoard_def exPlay_def)
  have h7: "doHashMove (brd exEnv) 2 m (getPlayerToMove (brd exEnv) 2) = None" for m
    by (simp add: exEnv_def exBoard_def exPlay_def)
  have h8: "\<not> isStop exState" by (simp add: exState_def)
  have h10: "\<And>entry. hash_get (tt exEnv) (transpositionTable exState) 2 = Some entry \<Longrightarrow>
                 entry_depth entry \<ge> 1 \<Longrightarrow>
                 (entry_nodeType entry = ALL_NODE \<longrightarrow> - 50 < entry_score entry)
                 \<and> (entry_nodeType entry = CUT_NODE \<longrightarrow> entry_score entry < 50)"
    by (simp add: exEnv_def exHash_def exState_def)
  have h11: "\<not> nullMoveApplies exEnv exState 2 (getPlayerToMove (brd exEnv) 2) 1
                 (50 - (- 50) \<noteq> (1::int)) False
                 (if getPlayerToMove (brd exEnv) 2 = WHITE then evaluate (brd exEnv) 2
                  else - evaluate (brd exEnv) 2) 50"
    by (simp add: nullMoveApplies_def)
  have h12: "\<not> reverseFutility exEnv 2 (getPlayerToMove (brd exEnv) 2) 1
                 (50 - (- 50) \<noteq> (1::int)) False
                 (if getPlayerToMove (brd exEnv) 2 = WHITE then evaluate (brd exEnv) 2
                  else - evaluate (brd exEnv) 2) 50"
    by (simp add: reverseFutility_def)
  have h13: "\<not> futilityPrune exEnv 2 (getPlayerToMove (brd exEnv) 2)
                 \<lparr>ss_isPVNode = (50 - (- 50) \<noteq> (1::int)), ss_isInCheck = False, ss_moves = g\<rparr> 1
                 (if getPlayerToMove (brd exEnv) 2 = WHITE then evaluate (brd exEnv) 2
                  else - evaluate (brd exEnv) 2) (- 50) m" for m g
    by (simp add: futilityPrune_def nodeIsReducible_def)
  have "map_option fst (PVS exEnv 5 exState 2 1 (- 50) 50 []) = Some (max (- 50) (min 0 50))"
    by (rule PVS_stalemate [OF exEnv_iterator h2 h3 h4 h5 h6 h7 h8 exState_neverTimesOut
               h10 h11 h12 h13])
  then have "map_option fst (PVS exEnv 5 exState 2 1 (- 50) 50 []) = Some 0"
    by simp
  with exEnv_iterator h5 h6 h8 exState_neverTimesOut show ?thesis by (intro conjI allI)
qed

theorem PVS_stalemate_reverse_futility_counterexample:
  "isInCheck (brd exEnv) 2 (getPlayerToMove (brd exEnv) 2) = False
   \<and> generateMoves (sso exEnv) 2 (getPlayerToMove (brd exEnv) 2) 1 False False
        (searchParams exState) (NULL_MOVE (cst exEnv)) = [7]
   \<and> doPseudoLegalMove (brd exEnv) 2 7 (getPlayerToMove (brd exEnv) 2) = None
   \<and> isStop exState = False
   \<and> map_option fst (PVS exEnv 5 exState 2 1 100 101 []) = Some 101
   \<and> max 100 (min 0 101) = (100::int)"
  by code_simp

end
